theory Spec2Isabelle
  imports Main "HOL-Library.AList"
begin

section \<open>The dependency-ordered thread coordinator of demogrid.common.utils\<close>

text \<open>
  The development embeds the classes \<^verbatim>\<open>DemoGridThread\<close> and \<^verbatim>\<open>MultiThread\<close> of
  \<^verbatim>\<open>src/demogrid/common/utils.py\<close>.

  Thread objects are Python objects compared by identity (\<^verbatim>\<open>th.depends == thread\<close>,
  \<^verbatim>\<open>th.depends == None\<close>), mutated in place and shared between the dictionary
  \<^verbatim>\<open>self.threads\<close> and the \<^verbatim>\<open>depends\<close> fields of other threads. They therefore live in an
  explicit object store: a reference is a natural number, the store maps references to
  the fields of the object, and the next free reference grows with every constructor
  call.
\<close>

subsection \<open>Data\<close>

type_synonym ref = nat

text \<open>
  The exception value a body raised. \<^verbatim>\<open>ThreadAbortException\<close> is the class of the source;
  every other subclass of \<^verbatim>\<open>Exception\<close> is represented by its message text.
\<close>

datatype exn = ThreadAbortException | Exception string

text \<open>
  The fields of \<^verbatim>\<open>DemoGridThread.__init__\<close>. The field \<^verbatim>\<open>multi\<close> is the one coordinator of
  the model. \<open>started\<close> is the flag of \<^verbatim>\<open>threading.Thread\<close> that \<^verbatim>\<open>start()\<close> sets.
  \<open>status\<close> holds the integers of the source: -1 initially, 0 after the body returned,
  1 after it raised, 2 for an acknowledged abort, 3 for a thread given up because of its
  dependency.
\<close>

record DemoGridThread =
  name :: string
  exception :: "exn option"
  stack_trace :: "string list option"
  status :: int
  depends :: "ref option"
  started :: bool

text \<open>
  The fields of \<^verbatim>\<open>MultiThread.__init__\<close>, together with the object store. The dictionary
  \<^verbatim>\<open>threads\<close> is an association list from names to references, in insertion order; the
  events \<^verbatim>\<open>all_done\<close> and \<^verbatim>\<open>abort\<close> are their flags. The lock has no field: every function
  below that the source runs under \<^verbatim>\<open>with self.lock\<close> is one atomic state transformer.
\<close>

record MultiThread =
  num_threads :: int
  done_threads :: int
  threads :: "(string \<times> ref) list"
  all_done :: bool
  abort :: bool
  heap :: "ref \<Rightarrow> DemoGridThread"
  next_ref :: ref

text \<open>The six task states of the specification, read off \<open>status\<close> and \<open>started\<close>.\<close>

datatype task_state =
  Pending | Running | Succeeded | Failed | Aborted | SkippedDueToDependencyFailure

definition state_of :: "DemoGridThread \<Rightarrow> task_state option" where
  "state_of t =
     (if status t = -1 then Some (if started t then Running else Pending)
      else if status t = 0 then Some Succeeded
      else if status t = 1 then Some Failed
      else if status t = 2 then Some Aborted
      else if status t = 3 then Some SkippedDueToDependencyFailure
      else None)"

definition task_state :: "MultiThread \<Rightarrow> ref \<Rightarrow> task_state option" where
  "task_state s r = state_of (heap s r)"

subsection \<open>Construction and registration\<close>

definition unallocated :: DemoGridThread where
  "unallocated = \<lparr>name = [], exception = None, stack_trace = None, status = -1,
                   depends = None, started = False\<rparr>"

definition MultiThread_init :: MultiThread where
  "MultiThread_init =
     \<lparr>num_threads = 0, done_threads = 0, threads = [], all_done = False, abort = False,
      heap = (\<lambda>_. unallocated), next_ref = 0\<rparr>"

text \<open>\<^verbatim>\<open>DemoGridThread(multi, name, depends)\<close>: a new object and its reference.\<close>

definition DemoGridThread_init ::
  "MultiThread \<Rightarrow> string \<Rightarrow> ref option \<Rightarrow> ref \<times> MultiThread" where
  "DemoGridThread_init s nm dep =
     (next_ref s,
      s\<lparr>heap := (heap s)(next_ref s :=
            \<lparr>name = nm, exception = None, stack_trace = None, status = -1,
             depends = dep, started = False\<rparr>),
        next_ref := Suc (next_ref s)\<rparr>)"

text \<open>\<^verbatim>\<open>self.threads[thread.name] = thread; self.num_threads += 1\<close>\<close>

definition add_thread :: "MultiThread \<Rightarrow> ref \<Rightarrow> MultiThread" where
  "add_thread s thread =
     s\<lparr>threads := AList.update (name (heap s thread)) thread (threads s),
       num_threads := num_threads s + 1\<rparr>"

text \<open>\<^verbatim>\<open>self.threads.values()\<close>\<close>

definition thread_values :: "MultiThread \<Rightarrow> ref list" where
  "thread_values s = map snd (threads s)"

text \<open>\<^verbatim>\<open>[th for th in self.threads.values() if th.depends == thread]\<close>\<close>

definition dependents :: "MultiThread \<Rightarrow> ref \<Rightarrow> ref list" where
  "dependents s thread = filter (\<lambda>th. depends (heap s th) = Some thread) (thread_values s)"

subsection \<open>Calls that can raise\<close>

text \<open>
  A call into the coordinator either returns or lets a \<^verbatim>\<open>RuntimeError\<close> escape. The
  writes made before the exception stay, so both results carry the state.
\<close>

datatype result = Returned MultiThread | RuntimeError MultiThread

fun state_after :: "result \<Rightarrow> MultiThread" where
  "state_after (Returned s) = s"
| "state_after (RuntimeError s) = s"

subsection \<open>Starting threads\<close>

text \<open>
  \<^verbatim>\<open>t.start()\<close> of \<^verbatim>\<open>threading.Thread\<close>: a thread can be started once; a second call
  raises \<^verbatim>\<open>RuntimeError\<close>.
\<close>

definition start :: "MultiThread \<Rightarrow> ref \<Rightarrow> result" where
  "start s t =
     (if started (heap s t) then RuntimeError s
      else Returned (s\<lparr>heap := (heap s)(t := (heap s t)\<lparr>started := True\<rparr>)\<rparr>))"

text \<open>\<^verbatim>\<open>for t in ts: t.start()\<close>\<close>

fun start_all :: "MultiThread \<Rightarrow> ref list \<Rightarrow> result" where
  "start_all s [] = Returned s"
| "start_all s (t # ts) =
     (case start s t of RuntimeError s' \<Rightarrow> RuntimeError s' | Returned s' \<Rightarrow> start_all s' ts)"

text \<open>
  \<^verbatim>\<open>MultiThread.run\<close> up to its blocking wait: the counter is reset and every registered
  thread without a dependency is started. The call returns when \<^verbatim>\<open>all_done.wait()\<close> is
  released, that is, once the flag \<open>all_done\<close> is set.
\<close>

definition MultiThread_run :: "MultiThread \<Rightarrow> result" where
  "MultiThread_run s =
     start_all (s\<lparr>done_threads := 0\<rparr>)
       (filter (\<lambda>th. depends (heap s th) = None) (thread_values s))"

definition run_returns :: "MultiThread \<Rightarrow> bool" where
  "run_returns s = all_done s"

subsection \<open>Completion of a thread\<close>

text \<open>\<^verbatim>\<open>MultiThread.thread_success\<close>, the body of its \<^verbatim>\<open>with self.lock\<close>.\<close>

definition thread_success :: "MultiThread \<Rightarrow> ref \<Rightarrow> result" where
  "thread_success s thread =
     (let s1 = s\<lparr>done_threads := done_threads s + 1\<rparr> in
      case start_all s1 (dependents s1 thread) of
        RuntimeError s2 \<Rightarrow> RuntimeError s2
      | Returned s2 \<Rightarrow>
          Returned (if done_threads s2 = num_threads s2 then s2\<lparr>all_done := True\<rparr> else s2))"

text \<open>
  \<^verbatim>\<open>MultiThread.abort_dependents\<close> calls itself once for every link of a chain of
  dependents, and every call takes a frame of the interpreter's stack. The interpreter
  bounds the stack (\<^verbatim>\<open>sys.getrecursionlimit()\<close>, 1000 unless changed): a call that would
  exceed the bound raises \<^verbatim>\<open>RuntimeError\<close> instead, and nothing in the coordinator catches
  it. The parameter \<open>depth\<close> is the number of nested calls of \<^verbatim>\<open>abort_dependents\<close> the
  stack of the reporting thread still has room for. The calls of \<^verbatim>\<open>log.debug\<close> (the module
  \<^verbatim>\<open>demogrid.common.log\<close> is not among the sources) are taken to return without a write
  to the coordinator or its threads; the frames they use are not counted on their own.

  \<open>skip\<close> is the body of the loop before the recursive call
  (\<^verbatim>\<open>th.status = 3; self.done_threads += 1\<close>). \<open>abort_loop depth\<close> is the loop
  \<^verbatim>\<open>for th in dep\<close> over the remaining list, run in a frame below which \<open>depth\<close> further
  calls fit: its body marks \<open>th\<close> and calls the method on \<open>th\<close>; if that call raises, the
  loop is abandoned with the marks made so far.
\<close>

definition skip :: "MultiThread \<Rightarrow> ref \<Rightarrow> MultiThread" where
  "skip s th =
     s\<lparr>heap := (heap s)(th := (heap s th)\<lparr>status := 3\<rparr>),
       done_threads := done_threads s + 1\<rparr>"

fun abort_loop :: "nat \<Rightarrow> MultiThread \<Rightarrow> ref list \<Rightarrow> result" where
  "abort_loop depth s [] = Returned s"
| "abort_loop depth s (th # rest) =
     (case (if depth = 0 then RuntimeError (skip s th)
            else abort_loop (depth - 1) (skip s th) (dependents (skip s th) th)) of
        RuntimeError s' \<Rightarrow> RuntimeError s'
      | Returned s' \<Rightarrow> abort_loop depth s' rest)"

definition abort_dependents :: "nat \<Rightarrow> MultiThread \<Rightarrow> ref \<Rightarrow> result" where
  "abort_dependents depth s thread =
     (if depth = 0 then RuntimeError s
      else abort_loop (depth - 1) s (dependents s thread))"

text \<open>
  \<^verbatim>\<open>MultiThread.thread_failure\<close>, the body of its \<^verbatim>\<open>with self.lock\<close>. When the cascade
  raises, the lock is released and the exception leaves the method before the test of the
  counter.
\<close>

definition thread_failure :: "nat \<Rightarrow> MultiThread \<Rightarrow> ref \<Rightarrow> result" where
  "thread_failure depth s thread =
     (let s1 = (if exception (heap s thread) \<noteq> Some ThreadAbortException
                then s\<lparr>abort := True\<rparr>
                else s\<lparr>heap := (heap s)(thread := (heap s thread)\<lparr>status := 2\<rparr>)\<rparr>);
          s2 = s1\<lparr>done_threads := done_threads s1 + 1\<rparr>
      in case abort_dependents depth s2 thread of
           RuntimeError s3 \<Rightarrow> RuntimeError s3
         | Returned s3 \<Rightarrow>
             Returned (if done_threads s3 = num_threads s3 then s3\<lparr>all_done := True\<rparr> else s3))"

text \<open>\<^verbatim>\<open>DemoGridThread.check_continue\<close>: raises when the abort flag is set.\<close>

definition check_continue :: "MultiThread \<Rightarrow> exn option" where
  "check_continue s = (if abort s then Some ThreadAbortException else None)"

text \<open>
  What the opaque body \<^verbatim>\<open>run2\<close> did: it returned, or it raised an instance of
  \<^verbatim>\<open>Exception\<close>, which comes with the text \<^verbatim>\<open>traceback.format_exception\<close> makes of it.
\<close>

datatype outcome = Returns | Raises exn "string list"

text \<open>
  \<^verbatim>\<open>DemoGridThread.run\<close>, from the moment the body has finished. The writes to the
  thread's own fields and the call into the coordinator are one step: between them the
  thread holds no lock, but no other thread writes these fields of a started thread, and
  the coordinator reads them only in log messages. An exception that leaves
  \<^verbatim>\<open>thread_failure\<close> leaves \<^verbatim>\<open>run\<close> as well, since the call stands in the handler.
\<close>

definition DemoGridThread_run :: "nat \<Rightarrow> MultiThread \<Rightarrow> ref \<Rightarrow> outcome \<Rightarrow> result" where
  "DemoGridThread_run depth s self out =
     (case out of
        Returns \<Rightarrow>
          (let s1 = s\<lparr>heap := (heap s)(self := (heap s self)\<lparr>status := 0\<rparr>)\<rparr> in
           if status (heap s1 self) = 0 then thread_success s1 self else Returned s1)
      | Raises exc_value trace \<Rightarrow>
          (let s1 = s\<lparr>heap := (heap s)(self := (heap s self)
                      \<lparr>exception := Some exc_value, stack_trace := Some trace, status := 1\<rparr>)\<rparr>
           in case thread_failure depth s1 self of
                RuntimeError s2 \<Rightarrow> RuntimeError s2
              | Returned s2 \<Rightarrow>
                  if status (heap s2 self) = 0 then thread_success s2 self else Returned s2))"

subsection \<open>Results\<close>

text \<open>\<^verbatim>\<open>all([t.status == 0 for t in self.threads.values()])\<close>\<close>

definition all_success :: "MultiThread \<Rightarrow> bool" where
  "all_success s = list_all (\<lambda>t. status (heap s t) = 0) (thread_values s)"




subsection \<open>Runs of the coordinator\<close>

text \<open>
  The caller first constructs thread objects and registers them. A constructor call can
  only name an object that exists already as its dependency, and only an existing object
  can be registered; a script that does otherwise is no Python program and has no
  result.
\<close>

datatype config_op = NewThread string "ref option" | AddThread ref

fun configure_step :: "MultiThread \<Rightarrow> config_op \<Rightarrow> MultiThread option" where
  "configure_step s (NewThread nm None) = Some (snd (DemoGridThread_init s nm None))"
| "configure_step s (NewThread nm (Some p)) =
     (if p < next_ref s then Some (snd (DemoGridThread_init s nm (Some p))) else None)"
| "configure_step s (AddThread r) = (if r < next_ref s then Some (add_thread s r) else None)"

fun configure :: "MultiThread \<Rightarrow> config_op list \<Rightarrow> MultiThread option" where
  "configure s [] = Some s"
| "configure s (x # xs) = (case configure_step s x of None \<Rightarrow> None | Some s' \<Rightarrow> configure s' xs)"

text \<open>
  After \<^verbatim>\<open>run()\<close> has started the first threads, the state changes when a started thread
  whose body has finished executes the rest of \<^verbatim>\<open>DemoGridThread.run\<close>, or when the
  environment sets the abort flag. Bodies are opaque: any started thread that has not
  reported yet may finish next, with any outcome. A thread whose \<^verbatim>\<open>run\<close> ends with an
  uncaught exception is gone like one whose \<^verbatim>\<open>run\<close> returned; the state it leaves is the
  state the others go on from.
\<close>

datatype event = Finish ref outcome | SetAbort

definition running :: "MultiThread \<Rightarrow> ref \<Rightarrow> bool" where
  "running s r = (started (heap s r) \<and> status (heap s r) = -1)"

fun fire :: "nat \<Rightarrow> MultiThread \<Rightarrow> event \<Rightarrow> MultiThread option" where
  "fire depth s (Finish r out) =
     (if running s r then Some (state_after (DemoGridThread_run depth s r out)) else None)"
| "fire depth s SetAbort = Some (s\<lparr>abort := True\<rparr>)"

fun exec :: "nat \<Rightarrow> MultiThread \<Rightarrow> event list \<Rightarrow> MultiThread option" where
  "exec depth s [] = Some s"
| "exec depth s (e # es) =
     (case fire depth s e of None \<Rightarrow> None | Some s' \<Rightarrow> exec depth s' es)"

text \<open>
  A registration is a forest with unique names when no call of \<^verbatim>\<open>add_thread\<close> replaced an
  entry (the counter equals the size of the dictionary) and every registered thread
  depends on nothing or on a registered thread.
\<close>

definition unique_names :: "MultiThread \<Rightarrow> bool" where
  "unique_names s = (num_threads s = int (length (threads s)))"

definition forest :: "MultiThread \<Rightarrow> bool" where
  "forest s =
     list_all (\<lambda>t. case depends (heap s t) of None \<Rightarrow> True
                   | Some p \<Rightarrow> p \<in> set (thread_values s)) (thread_values s)"


text \<open>
  A whole use of the coordinator: the caller's registration script, then \<^verbatim>\<open>run()\<close>, then a
  sequence of events, with \<open>depth\<close> the room every reporting thread has for the cascade.
  The result is the state after the last event.
\<close>

definition session :: "nat \<Rightarrow> config_op list \<Rightarrow> event list \<Rightarrow> MultiThread option" where
  "session depth ops evs =
     (case configure MultiThread_init ops of
        None \<Rightarrow> None
      | Some c \<Rightarrow>
          (case MultiThread_run c of
             RuntimeError s0 \<Rightarrow> None
           | Returned s0 \<Rightarrow> exec depth s0 evs))"

subsection \<open>Scenarios\<close>

text \<open>
  The concrete runs the theorems are tried on. With the interpreter's default limit of
  1000 frames and the few frames below \<^verbatim>\<open>thread_failure\<close>, the room for the cascade is a
  little under 1000; the scenarios take 990 where the room does not matter, and a chain of
  four tasks with room for two calls where it does. The theorems hold for every depth.
\<close>

definition stack_room :: nat where
  "stack_room = 990"

definition three_tasks :: "config_op list" where
  "three_tasks =
     [NewThread ''A'' None, AddThread 0, NewThread ''B'' (Some 0), AddThread 1,
      NewThread ''C'' None, AddThread 2]"

definition disk_full_run :: MultiThread where
  "disk_full_run =
     the (session stack_room three_tasks
       [Finish 2 (Raises (Exception ''disk full'') [''Traceback'']), Finish 0 Returns,
        Finish 1 Returns])"

definition diamond :: "config_op list" where
  "diamond =
     [NewThread ''A'' None, AddThread 0, NewThread ''B'' (Some 0), AddThread 1,
      NewThread ''C'' (Some 0), AddThread 2, NewThread ''D'' (Some 1), AddThread 3]"

definition diamond_failed_events :: "event list" where
  "diamond_failed_events = [Finish 0 (Raises (Exception ''network error'') [''Traceback''])]"

definition diamond_failed_run :: MultiThread where
  "diamond_failed_run = the (session stack_room diamond diamond_failed_events)"

definition diamond_launched :: MultiThread where
  "diamond_launched = the (session stack_room diamond [])"



definition first_success_run :: MultiThread where
  "first_success_run = the (session stack_room three_tasks [Finish 0 Returns])"

definition abort_set_run :: MultiThread where
  "abort_set_run =
     the (session stack_room three_tasks
            [Finish 2 (Raises (Exception ''disk full'') [''Traceback''])])"

definition chain :: "config_op list" where
  "chain =
     [NewThread ''A'' None, AddThread 0, NewThread ''B'' (Some 0), AddThread 1,
      NewThread ''C'' (Some 1), AddThread 2, NewThread ''D'' (Some 2), AddThread 3]"

definition chain_launched :: MultiThread where
  "chain_launched = the (session 2 chain [])"

definition chain_cut_run :: MultiThread where
  "chain_cut_run =
     the (session 2 chain [Finish 0 (Raises (Exception ''network error'') [''Traceback''])])"

definition chain_abort_set :: MultiThread where
  "chain_abort_set = the (session 2 chain [SetAbort])"



definition no_threads_run :: MultiThread where
  "no_threads_run = the (session stack_room [] [SetAbort])"

definition duplicate_prefix :: "config_op list" where
  "duplicate_prefix = [NewThread ''A'' None, AddThread 0, NewThread ''A'' None]"

definition duplicate_config :: MultiThread where
  "duplicate_config = the (configure MultiThread_init duplicate_prefix)"

definition duplicate_run :: MultiThread where
  "duplicate_run =
     the (session stack_room (duplicate_prefix @ AddThread 1 # []) [Finish 1 Returns])"

text \<open>
  \<open>depends_on s t b\<close>: task \<open>t\<close> depends on task \<open>b\<close>, directly or through other tasks.
\<close>

inductive depends_on :: "MultiThread \<Rightarrow> ref \<Rightarrow> ref \<Rightarrow> bool" for s where
  direct: "depends (heap s t) = Some b \<Longrightarrow> depends_on s t b"
| via: "depends (heap s t) = Some p \<Longrightarrow> depends_on s p b \<Longrightarrow> depends_on s t b"

subsection \<open>Predicates used in the proofs\<close>

text \<open>
  A thread is untouched (\<open>pend\<close>) while its status is -1 and it has not been started.
  \<open>status_only s s'\<close> says that \<open>s'\<close> differs from \<open>s\<close> in \<open>status\<close> fields and the
  counter only. \<open>counted\<close> says that the counter is the number of registered threads
  whose status has left -1. \<open>cascade_pre\<close> is what the loop of \<^verbatim>\<open>abort_dependents\<close>
  starts from: a list of untouched threads whose dependency has been given a status
  already. \<open>cascade_part\<close> is what the loop has done whether it returned or was cut
  short; \<open>cascade_full\<close> is what it has done in addition when it returned.
\<close>

definition pend :: "MultiThread \<Rightarrow> ref \<Rightarrow> bool" where
  "pend s r = (status (heap s r) = -1 \<and> \<not> started (heap s r))"

definition status_only :: "MultiThread \<Rightarrow> MultiThread \<Rightarrow> bool" where
  "status_only s s' =
     (threads s' = threads s \<and> next_ref s' = next_ref s \<and> num_threads s' = num_threads s \<and>
      all_done s' = all_done s \<and> abort s' = abort s \<and>
      (\<forall>r. heap s' r = (heap s r)\<lparr>status := status (heap s' r)\<rparr>))"

definition counted :: "MultiThread \<Rightarrow> bool" where
  "counted s =
     (done_threads s = int (length (filter (\<lambda>r. status (heap s r) \<noteq> -1) (thread_values s))))"

definition acyclic_deps :: "MultiThread \<Rightarrow> bool" where
  "acyclic_deps s = (\<forall>r p. depends (heap s r) = Some p \<longrightarrow> p < r)"

definition allocated :: "MultiThread \<Rightarrow> bool" where
  "allocated s = (\<forall>r\<in>set (thread_values s). r < next_ref s)"

definition cascade_pre :: "MultiThread \<Rightarrow> ref list \<Rightarrow> bool" where
  "cascade_pre s ths =
     (acyclic_deps s \<and> distinct (thread_values s) \<and> set ths \<subseteq> set (thread_values s) \<and>
      distinct ths \<and>
      (\<forall>th\<in>set ths. pend s th \<and> (\<exists>p. depends (heap s th) = Some p \<and> status (heap s p) \<noteq> -1)) \<and>
      (\<forall>t\<in>set (thread_values s). \<forall>p. depends (heap s t) = Some p \<longrightarrow> pend s p \<longrightarrow> pend s t) \<and>
      counted s)"

definition cascade_part :: "MultiThread \<Rightarrow> ref list \<Rightarrow> MultiThread \<Rightarrow> bool" where
  "cascade_part s ths s' =
     ((\<forall>r. status (heap s' r) = status (heap s r) \<or> (pend s r \<and> status (heap s' r) = 3)) \<and>
      counted s' \<and>
      (\<forall>r. status (heap s' r) \<noteq> status (heap s r) \<longrightarrow>
           r \<in> set ths \<or>
           (\<exists>p. depends (heap s r) = Some p \<and> status (heap s' p) \<noteq> status (heap s p))) \<and>
      (\<forall>r. status (heap s' r) \<noteq> status (heap s r) \<longrightarrow> r \<in> set (thread_values s)))"

definition cascade_full :: "MultiThread \<Rightarrow> ref list \<Rightarrow> MultiThread \<Rightarrow> bool" where
  "cascade_full s ths s' =
     ((\<forall>th\<in>set ths. status (heap s' th) = 3) \<and>
      (\<forall>t\<in>set (thread_values s). \<forall>p. depends (heap s t) = Some p \<longrightarrow>
           status (heap s' p) \<noteq> status (heap s p) \<longrightarrow> status (heap s' t) = 3))"

definition well_formed :: "MultiThread \<Rightarrow> bool" where
  "well_formed s =
     (acyclic_deps s \<and> allocated s \<and> (\<forall>e\<in>set (threads s). name (heap s (snd e)) = fst e) \<and>
      distinct (map fst (threads s)) \<and> int (length (threads s)) \<le> num_threads s)"

definition fresh :: "MultiThread \<Rightarrow> bool" where
  "fresh s =
     (done_threads s = 0 \<and> \<not> all_done s \<and> \<not> abort s \<and>
      (\<forall>r. status (heap s r) = -1 \<and> \<not> started (heap s r) \<and>
           exception (heap s r) = None \<and> stack_trace (heap s r) = None))"

text \<open>
  The invariant of a run. It holds after a cascade that was cut short as well, which is
  why it says less than one might expect: a task is marked as skipped only below a task
  that failed, was aborted or was skipped, but not every task below such a task is
  marked; and the wait is released only when the counter has reached \<^verbatim>\<open>num_threads\<close>, but
  not every time it has.
\<close>

definition untouched_outside :: "MultiThread \<Rightarrow> bool" where
  "untouched_outside s = (\<forall>r. r \<notin> set (thread_values s) \<longrightarrow> pend s r)"

definition status_ok :: "MultiThread \<Rightarrow> bool" where
  "status_ok s =
     (\<forall>r. status (heap s r) \<in> {-1, 0, 1, 2, 3} \<and>
          (status (heap s r) = 3 \<longrightarrow> \<not> started (heap s r)) \<and>
          (status (heap s r) \<in> {0, 1, 2} \<longrightarrow> started (heap s r)))"

definition deps_ok :: "MultiThread \<Rightarrow> bool" where
  "deps_ok s =
     (\<forall>r\<in>set (thread_values s).
        (depends (heap s r) = None \<longrightarrow> started (heap s r)) \<and>
        (\<forall>p. depends (heap s r) = Some p \<longrightarrow>
           (started (heap s r) \<longleftrightarrow> status (heap s p) = 0) \<and>
           (status (heap s r) = 3 \<longrightarrow> status (heap s p) \<in> {1, 2, 3})))"

definition done_ok :: "MultiThread \<Rightarrow> bool" where
  "done_ok s = (all_done s \<longrightarrow> done_threads s = num_threads s \<and> 0 < done_threads s)"

definition exn_ok :: "MultiThread \<Rightarrow> bool" where
  "exn_ok s =
     (\<forall>r. (status (heap s r) \<in> {-1, 0, 3} \<longrightarrow>
             exception (heap s r) = None \<and> stack_trace (heap s r) = None) \<and>
          (status (heap s r) = 1 \<longrightarrow>
             (\<exists>e tr. exception (heap s r) = Some e \<and> e \<noteq> ThreadAbortException \<and>
                     stack_trace (heap s r) = Some tr)) \<and>
          (status (heap s r) = 2 \<longrightarrow>
             exception (heap s r) = Some ThreadAbortException \<and>
             (\<exists>tr. stack_trace (heap s r) = Some tr)))"

definition run_inv :: "MultiThread \<Rightarrow> bool" where
  "run_inv s = (well_formed s \<and> untouched_outside s \<and> status_ok s \<and> deps_ok s \<and> counted s \<and>
            done_ok s \<and> exn_ok s)"

text \<open>
  The state after \<^verbatim>\<open>DemoGridThread.run\<close> of a thread whose body returned
  (\<open>success_post\<close>); the state in which \<^verbatim>\<open>thread_failure\<close> calls the cascade
  (\<open>fail_state\<close>) and the test of the counter that follows it (\<open>finish_check\<close>);
  two states with the same dictionary and dependencies (\<open>same_registry\<close>); and the
  number of registered tasks with status -1 (\<open>pending_count\<close>).
\<close>

definition success_post :: "MultiThread \<Rightarrow> ref \<Rightarrow> MultiThread \<Rightarrow> bool" where
  "success_post s r s' =
     (threads s' = threads s \<and> next_ref s' = next_ref s \<and> num_threads s' = num_threads s \<and>
      abort s' = abort s \<and> done_threads s' = done_threads s + 1 \<and>
      all_done s' = (all_done s \<or> done_threads s + 1 = num_threads s) \<and>
      (\<forall>t. heap s' t =
         (if t = r then (heap s r)\<lparr>status := 0\<rparr>
          else if t \<in> set (dependents s r) then (heap s t)\<lparr>started := True\<rparr>
          else heap s t)))"

definition fail_state :: "MultiThread \<Rightarrow> ref \<Rightarrow> exn \<Rightarrow> string list \<Rightarrow> MultiThread" where
  "fail_state s r e tr =
     s\<lparr>heap := (heap s)(r := (heap s r)
          \<lparr>exception := Some e, stack_trace := Some tr,
           status := (if e = ThreadAbortException then 2 else 1)\<rparr>),
       abort := (abort s \<or> e \<noteq> ThreadAbortException),
       done_threads := done_threads s + 1\<rparr>"

definition finish_check :: "MultiThread \<Rightarrow> MultiThread" where
  "finish_check s = (if done_threads s = num_threads s then s\<lparr>all_done := True\<rparr> else s)"

definition same_registry :: "MultiThread \<Rightarrow> MultiThread \<Rightarrow> bool" where
  "same_registry s s' =
     (threads s' = threads s \<and> num_threads s' = num_threads s \<and> next_ref s' = next_ref s \<and>
      (\<forall>t. depends (heap s' t) = depends (heap s t) \<and> name (heap s' t) = name (heap s t)))"

definition pending_count :: "MultiThread \<Rightarrow> nat" where
  "pending_count s = length (filter (\<lambda>t. status (heap s t) = -1) (thread_values s))"

section \<open>The cascade of \<^verbatim>\<open>abort_dependents\<close>\<close>

text \<open>
  The cascade changes nothing but \<open>status\<close> fields and the counter. Whether it returns
  or is cut short by the bound on the stack, it marks only untouched registered threads
  below the threads it started from and counts each of them; when it returns, it has
  marked all of them.
\<close>

lemma status_only_refl: "status_only s s"
  by (simp add: status_only_def)

lemma status_only_trans: "status_only s s1 \<Longrightarrow> status_only s1 s2 \<Longrightarrow> status_only s s2"
  unfolding status_only_def
  apply (intro conjI)
       apply simp_all
  apply (intro allI)
  subgoal for r
    apply (elim conjE)
    apply (drule spec[where x=r])+
    apply (cases "heap s r", cases "heap s1 r", cases "heap s2 r")
    apply simp
    done
  done

lemma status_only_skip: "status_only s (skip s th)"
  by (simp add: status_only_def skip_def)

lemma status_only_heap:
  assumes "status_only s s'"
  shows "depends (heap s' r) = depends (heap s r)" "started (heap s' r) = started (heap s r)"
    "name (heap s' r) = name (heap s r)" "exception (heap s' r) = exception (heap s r)"
    "stack_trace (heap s' r) = stack_trace (heap s r)"
proof -
  from assms have "heap s' r = (heap s r)\<lparr>status := status (heap s' r)\<rparr>"
    by (simp add: status_only_def)
  then show "depends (heap s' r) = depends (heap s r)" "started (heap s' r) = started (heap s r)"
    "name (heap s' r) = name (heap s r)" "exception (heap s' r) = exception (heap s r)"
    "stack_trace (heap s' r) = stack_trace (heap s r)"
    by (cases "heap s r", cases "heap s' r", simp)+
qed

lemma status_only_values:
  "status_only s s' \<Longrightarrow> thread_values s' = thread_values s"
  by (simp add: status_only_def thread_values_def)

lemma status_only_dependents:
  "status_only s s' \<Longrightarrow> dependents s' t = dependents s t"
  by (simp add: dependents_def status_only_values status_only_heap)

lemma skip_simps:
  "thread_values (skip s th) = thread_values s"
  "status (heap (skip s th) r) = (if r = th then 3 else status (heap s r))"
  "depends (heap (skip s th) r) = depends (heap s r)"
  "started (heap (skip s th) r) = started (heap s r)"
  "done_threads (skip s th) = done_threads s + 1"
  "pend (skip s th) r = (r \<noteq> th \<and> pend s r)"
  by (simp_all add: skip_def thread_values_def pend_def)

lemma dependents_skip: "dependents (skip s th) t = dependents s t"
  unfolding dependents_def skip_simps by (rule filter_cong) (simp_all add: skip_simps)

lemma length_filter_flip:
  "distinct xs \<Longrightarrow> x \<in> set xs \<Longrightarrow> \<not> P x \<Longrightarrow> Q x \<Longrightarrow> (\<forall>y. y \<noteq> x \<longrightarrow> Q y = P y) \<Longrightarrow>
   length (filter Q xs) = Suc (length (filter P xs))"
proof (induction xs)
  case Nil
  then show ?case by simp
next
  case (Cons a xs)
  show ?case
  proof (cases "a = x")
    case True
    with Cons.prems have "x \<notin> set xs" by simp
    with Cons.prems(5) have "filter Q xs = filter P xs"
      by (intro filter_cong) auto
    with True Cons.prems show ?thesis by simp
  next
    case False
    with Cons show ?thesis by auto
  qed
qed

lemma cascade_partD:
  assumes "cascade_part s ths s'"
  shows "\<forall>r. status (heap s' r) = status (heap s r) \<or> (pend s r \<and> status (heap s' r) = 3)"
    and "counted s'"
    and "\<forall>r. status (heap s' r) \<noteq> status (heap s r) \<longrightarrow>
           r \<in> set ths \<or>
           (\<exists>p. depends (heap s r) = Some p \<and> status (heap s' p) \<noteq> status (heap s p))"
    and "\<forall>r. status (heap s' r) \<noteq> status (heap s r) \<longrightarrow> r \<in> set (thread_values s)"
  using assms unfolding cascade_part_def by blast+

lemma cascade_fullD:
  assumes "cascade_full s ths s'"
  shows "\<forall>th\<in>set ths. status (heap s' th) = 3"
    and "\<forall>t\<in>set (thread_values s). \<forall>p. depends (heap s t) = Some p \<longrightarrow>
           status (heap s' p) \<noteq> status (heap s p) \<longrightarrow> status (heap s' t) = 3"
  using assms unfolding cascade_full_def by blast+

lemma cascade_part_refl: "counted s \<Longrightarrow> cascade_part s ths s"
  by (simp add: cascade_part_def)

lemma cascade_full_Nil: "cascade_full s [] s"
  by (simp add: cascade_full_def)

lemma cascade_pre_skip:
  assumes pre: "cascade_pre s (th # rest)"
  shows "cascade_pre (skip s th) (dependents (skip s th) th)"
proof -
  let ?s1 = "skip s th"
  from pre have acy: "acyclic_deps s" and dV: "distinct (thread_values s)"
    and thV: "th \<in> set (thread_values s)" and pth: "pend s th"
    and par: "\<exists>p. depends (heap s th) = Some p \<and> status (heap s p) \<noteq> -1"
    and dc: "\<forall>t\<in>set (thread_values s). \<forall>p. depends (heap s t) = Some p \<longrightarrow> pend s p \<longrightarrow> pend s t"
    and cnt: "counted s"
    by (simp_all add: cascade_pre_def)
  have 1: "acyclic_deps ?s1" using acy by (simp add: acyclic_deps_def skip_simps)
  have 2: "distinct (thread_values ?s1)" using dV by (simp add: skip_simps)
  have 3: "set (dependents ?s1 th) \<subseteq> set (thread_values ?s1)" "distinct (dependents ?s1 th)"
    using dV by (auto simp: dependents_def skip_simps)
  have 4: "\<forall>t\<in>set (dependents ?s1 th). pend ?s1 t \<and>
             (\<exists>p. depends (heap ?s1 t) = Some p \<and> status (heap ?s1 p) \<noteq> -1)"
  proof
    fix t assume "t \<in> set (dependents ?s1 th)"
    then have t: "t \<in> set (thread_values s)" "depends (heap s t) = Some th"
      by (simp_all add: dependents_def skip_simps)
    with acy have "th < t" by (simp add: acyclic_deps_def)
    moreover from dc t pth have "pend s t" by blast
    ultimately show "pend ?s1 t \<and> (\<exists>p. depends (heap ?s1 t) = Some p \<and> status (heap ?s1 p) \<noteq> -1)"
      using t by (simp add: skip_simps)
  qed
  have 5: "\<forall>t\<in>set (thread_values ?s1). \<forall>p. depends (heap ?s1 t) = Some p \<longrightarrow> pend ?s1 p \<longrightarrow> pend ?s1 t"
  proof (intro ballI allI impI)
    fix t p assume t: "t \<in> set (thread_values ?s1)" "depends (heap ?s1 t) = Some p" "pend ?s1 p"
    then have "pend s t" using dc by (simp add: skip_simps)
    moreover have "t \<noteq> th" using t par by (auto simp: skip_simps pend_def split: if_splits)
    ultimately show "pend ?s1 t" by (simp add: skip_simps)
  qed
  have 6: "counted ?s1"
  proof -
    have "length (filter (\<lambda>r. status (heap ?s1 r) \<noteq> -1) (thread_values s)) =
          Suc (length (filter (\<lambda>r. status (heap s r) \<noteq> -1) (thread_values s)))"
      using dV thV pth by (intro length_filter_flip[where x = th]) (auto simp: skip_simps pend_def)
    with cnt show ?thesis by (simp add: counted_def skip_simps)
  qed
  from 1 2 3 4 5 6 show ?thesis by (simp add: cascade_pre_def)
qed

lemma cascade_pre_rest:
  assumes pre: "cascade_pre s (th # rest)"
    and s1: "s1 = skip s th"
    and so: "status_only s1 s2"
    and post: "cascade_part s1 (dependents s1 th) s2"
  shows "cascade_pre s2 rest"
proof -
  define f where "f = (\<lambda>r. status (heap s r))"
  define f1 where "f1 = (\<lambda>r. status (heap s1 r))"
  define f2 where "f2 = (\<lambda>r. status (heap s2 r))"
  define d where "d = (\<lambda>r. depends (heap s r))"
  define g where "g = (\<lambda>r. started (heap s r))"
  define V where "V = set (thread_values s)"
  have so1: "status_only s s1"
    unfolding s1 by (rule status_only_skip)
  have so': "status_only s s2"
    using so1 so by (rule status_only_trans)
  have d1: "depends (heap s1 r) = d r" and g1: "started (heap s1 r) = g r" for r
    using status_only_heap[OF so1] by (simp_all add: d_def g_def)
  have d2: "depends (heap s2 r) = d r" and g2: "started (heap s2 r) = g r" for r
    using status_only_heap[OF so'] by (simp_all add: d_def g_def)
  have V1: "thread_values s1 = thread_values s"
    using so1 by (rule status_only_values)
  have V2: "thread_values s2 = thread_values s"
    using so' by (rule status_only_values)
  have f1_eq: "f1 r = (if r = th then 3 else f r)" for r
    by (simp add: f1_def f_def s1 skip_simps)
  from pre have acy: "\<forall>r p. d r = Some p \<longrightarrow> p < r" and dV: "distinct (thread_values s)"
    and thV: "th \<in> V" and restV: "set rest \<subseteq> V" and drest: "distinct rest" "th \<notin> set rest"
    and pth: "f th = -1" "\<not> g th"
    and par: "\<exists>p. d th = Some p \<and> f p \<noteq> -1"
    and prest: "\<forall>r\<in>set rest. f r = -1 \<and> \<not> g r \<and> (\<exists>p. d r = Some p \<and> f p \<noteq> -1)"
    and dc: "\<forall>t\<in>V. \<forall>p. d t = Some p \<longrightarrow> f p = -1 \<and> \<not> g p \<longrightarrow> f t = -1 \<and> \<not> g t"
    by (simp_all add: cascade_pre_def acyclic_deps_def pend_def f_def d_def g_def V_def)
  note P = cascade_partD[OF post]
  have q1: "\<forall>r. f2 r = f1 r \<or> (f1 r = -1 \<and> \<not> g r \<and> f2 r = 3)"
    using P(1) by (simp add: pend_def g1 f1_def f2_def)
  have q3: "counted s2" by (rule P(2))
  have q5: "\<forall>r. f2 r \<noteq> f1 r \<longrightarrow>
               (r \<in> V \<and> d r = Some th) \<or> (\<exists>p. d r = Some p \<and> f2 p \<noteq> f1 p)"
    using P(3) by (simp add: dependents_def d1 V1 f1_def f2_def V_def)
  have p4: "f2 r = -1 \<and> \<not> g r \<and> (\<exists>p. d r = Some p \<and> f2 p \<noteq> -1)" if "r \<in> set rest" for r
  proof -
    from that prest obtain p where r: "f r = -1" "\<not> g r" "d r = Some p" "f p \<noteq> -1" by blast
    from that drest have "r \<noteq> th" by blast
    have "f1 p \<noteq> -1" using r(4) by (simp add: f1_eq)
    with q1 have p2: "f2 p = f1 p" by blast
    have "f2 r = f1 r"
    proof (rule ccontr)
      assume "f2 r \<noteq> f1 r"
      with q5 have "(r \<in> V \<and> d r = Some th) \<or> (\<exists>p. d r = Some p \<and> f2 p \<noteq> f1 p)" by blast
      with r(3) p2 have "p = th" by auto
      with r(4) pth show False by simp
    qed
    with \<open>r \<noteq> th\<close> r p2 \<open>f1 p \<noteq> -1\<close> show ?thesis by (auto simp: f1_eq)
  qed
  have p5: "f2 t = -1 \<and> \<not> g t" if t: "t \<in> V" "d t = Some p" "f2 p = -1" "\<not> g p" for t p
  proof -
    from q1 t(3) have "f1 p = -1" by (metis numeral_neq_neg_one)
    then have p: "p \<noteq> th" "f p = -1" by (auto simp: f1_eq split: if_splits)
    with dc t have ft: "f t = -1" "\<not> g t" by blast+
    have "t \<noteq> th" using par t(2) p(2) by auto
    have "f2 t = f1 t"
    proof (rule ccontr)
      assume "f2 t \<noteq> f1 t"
      with q5 have "(t \<in> V \<and> d t = Some th) \<or> (\<exists>p. d t = Some p \<and> f2 p \<noteq> f1 p)" by blast
      with t(2) p t(3) \<open>f1 p = -1\<close> show False by auto
    qed
    with ft \<open>t \<noteq> th\<close> show ?thesis by (simp add: f1_eq)
  qed
  show ?thesis
    unfolding cascade_pre_def
  proof (intro conjI)
    show "acyclic_deps s2" using acy by (simp add: acyclic_deps_def d2)
    show "distinct (thread_values s2)" using dV by (simp add: V2)
    show "set rest \<subseteq> set (thread_values s2)" using restV by (simp add: V2 V_def)
    show "distinct rest" by fact
    show "\<forall>th\<in>set rest. pend s2 th \<and> (\<exists>p. depends (heap s2 th) = Some p \<and> status (heap s2 p) \<noteq> - 1)"
      using p4 by (simp add: pend_def d2 g2 f2_def)
    show "\<forall>t\<in>set (thread_values s2). \<forall>p. depends (heap s2 t) = Some p \<longrightarrow> pend s2 p \<longrightarrow> pend s2 t"
      using p5 by (simp add: pend_def d2 g2 f2_def V2 V_def)
    show "counted s2" by fact
  qed
qed

lemma cascade_Cons:
  assumes pre: "cascade_pre s (th # rest)"
    and s1: "s1 = skip s th"
    and so: "status_only s1 s2"
    and post1: "cascade_part s1 (dependents s1 th) s2"
    and so2: "status_only s2 s'"
    and post2: "cascade_part s2 rest s'"
  shows "cascade_part s (th # rest) s'"
    and "cascade_full s1 (dependents s1 th) s2 \<Longrightarrow> cascade_full s2 rest s' \<Longrightarrow>
         cascade_full s (th # rest) s'"
proof -
  define f where "f = (\<lambda>r. status (heap s r))"
  define f1 where "f1 = (\<lambda>r. status (heap s1 r))"
  define f2 where "f2 = (\<lambda>r. status (heap s2 r))"
  define f3 where "f3 = (\<lambda>r. status (heap s' r))"
  define d where "d = (\<lambda>r. depends (heap s r))"
  define g where "g = (\<lambda>r. started (heap s r))"
  define V where "V = set (thread_values s)"
  have so1: "status_only s s1"
    unfolding s1 by (rule status_only_skip)
  have so': "status_only s s2"
    using so1 so by (rule status_only_trans)
  have d1: "depends (heap s1 r) = d r" and g1: "started (heap s1 r) = g r" for r
    using status_only_heap[OF so1] by (simp_all add: d_def g_def)
  have d2: "depends (heap s2 r) = d r" and g2: "started (heap s2 r) = g r" for r
    using status_only_heap[OF so'] by (simp_all add: d_def g_def)
  have V1: "thread_values s1 = thread_values s"
    using so1 by (rule status_only_values)
  have V2: "thread_values s2 = thread_values s"
    using so' by (rule status_only_values)
  have f1_eq: "f1 r = (if r = th then 3 else f r)" for r
    by (simp add: f1_def f_def s1 skip_simps)
  from pre have pth: "f th = -1" "\<not> g th" and thV: "th \<in> V"
    by (simp_all add: cascade_pre_def pend_def f_def g_def V_def)
  note P1 = cascade_partD[OF post1] and P2 = cascade_partD[OF post2]
  have a6: "\<forall>r. f2 r \<noteq> f1 r \<longrightarrow> r \<in> V"
    using P1(4) by (simp add: V1 f1_def f2_def V_def)
  have b6: "\<forall>r. f3 r \<noteq> f2 r \<longrightarrow> r \<in> V"
    using P2(4) by (simp add: V2 f2_def f3_def V_def)
  have c6: "r \<in> V" if "f3 r \<noteq> f r" for r
  proof (cases "r = th")
    case True
    with thV show ?thesis by simp
  next
    case False
    then have "f1 r = f r" by (simp add: f1_eq)
    with that a6 b6 show ?thesis by metis
  qed
  have a1: "\<forall>r. f2 r = f1 r \<or> (f1 r = -1 \<and> \<not> g r \<and> f2 r = 3)"
    using P1(1) by (simp add: pend_def g1 f1_def f2_def)
  have a5: "\<forall>r. f2 r \<noteq> f1 r \<longrightarrow>
               (r \<in> V \<and> d r = Some th) \<or> (\<exists>p. d r = Some p \<and> f2 p \<noteq> f1 p)"
    using P1(3) by (simp add: dependents_def d1 V1 f1_def f2_def V_def)
  have b1: "\<forall>r. f3 r = f2 r \<or> (f2 r = -1 \<and> \<not> g r \<and> f3 r = 3)"
    using P2(1) by (simp add: pend_def g2 f2_def f3_def)
  have b3: "counted s'" by (rule P2(2))
  have b5: "\<forall>r. f3 r \<noteq> f2 r \<longrightarrow> r \<in> set rest \<or> (\<exists>p. d r = Some p \<and> f3 p \<noteq> f2 p)"
    using P2(3) by (simp add: d2 f2_def f3_def)
  have keep3: "f3 r = 3" if "f2 r = 3" for r
    using b1 that by (metis numeral_neq_neg_one)
  have keep2: "f2 r = 3" if "f1 r = 3" for r
    using a1 that by (metis numeral_neq_neg_one)
  have th3: "f3 th = 3"
    by (simp add: keep3 keep2 f1_eq)
  have c1: "f3 r = f r \<or> (f r = -1 \<and> \<not> g r \<and> f3 r = 3)" for r
  proof (cases "r = th")
    case True
    with th3 pth show ?thesis by simp
  next
    case False
    then have "f1 r = f r" by (simp add: f1_eq)
    with a1 b1 show ?thesis by metis
  qed
  have chg: "f3 p \<noteq> f p" if "f2 p \<noteq> f1 p \<or> f3 p \<noteq> f2 p" for p
  proof -
    from that a1 b1 have "f3 p = 3 \<and> f1 p = -1"
      by (metis numeral_neq_neg_one)
    then show ?thesis by (auto simp: f1_eq split: if_splits)
  qed
  have c5: "r \<in> set (th # rest) \<or> (\<exists>p. d r = Some p \<and> f3 p \<noteq> f p)" if r: "f3 r \<noteq> f r" for r
  proof (cases "r = th")
    case True
    then show ?thesis by simp
  next
    case False
    then have fr: "f1 r = f r" by (simp add: f1_eq)
    show ?thesis
    proof (cases "f3 r \<noteq> f2 r")
      case True
      with b5 have "r \<in> set rest \<or> (\<exists>p. d r = Some p \<and> f3 p \<noteq> f2 p)" by blast
      with chg show ?thesis by auto
    next
      case False
      with r fr have "f2 r \<noteq> f1 r" by simp
      with a5 have "(r \<in> V \<and> d r = Some th) \<or> (\<exists>p. d r = Some p \<and> f2 p \<noteq> f1 p)" by blast
      then show ?thesis
      proof
        assume "r \<in> V \<and> d r = Some th"
        moreover have "f3 th \<noteq> f th" using th3 pth by simp
        ultimately show ?thesis by blast
      next
        assume "\<exists>p. d r = Some p \<and> f2 p \<noteq> f1 p"
        with chg show ?thesis by blast
      qed
    qed
  qed
  show "cascade_part s (th # rest) s'"
    unfolding cascade_part_def
  proof (intro conjI)
    show "\<forall>r. status (heap s' r) = status (heap s r) \<or> pend s r \<and> status (heap s' r) = 3"
      using c1 by (simp add: pend_def f_def f3_def g_def)
    show "counted s'" by fact
    show "\<forall>r. status (heap s' r) \<noteq> status (heap s r) \<longrightarrow>
            r \<in> set (th # rest) \<or>
            (\<exists>p. depends (heap s r) = Some p \<and> status (heap s' p) \<noteq> status (heap s p))"
      using c5 by (simp add: f_def f3_def d_def)
    show "\<forall>r. status (heap s' r) \<noteq> status (heap s r) \<longrightarrow> r \<in> set (thread_values s)"
      using c6 by (simp add: f_def f3_def V_def)
  qed
  assume full1: "cascade_full s1 (dependents s1 th) s2" and full2: "cascade_full s2 rest s'"
  note F1 = cascade_fullD[OF full1] and F2 = cascade_fullD[OF full2]
  have a2: "\<forall>t. t \<in> V \<and> d t = Some th \<longrightarrow> f2 t = 3"
    using F1(1) by (simp add: dependents_def d1 V1 f2_def V_def)
  have a4: "\<forall>t\<in>V. \<forall>p. d t = Some p \<longrightarrow> f2 p \<noteq> f1 p \<longrightarrow> f2 t = 3"
    using F1(2) by (simp add: d1 V1 f1_def f2_def V_def)
  have b2: "\<forall>t\<in>set rest. f3 t = 3"
    using F2(1) by (simp add: f3_def)
  have b4: "\<forall>t\<in>V. \<forall>p. d t = Some p \<longrightarrow> f3 p \<noteq> f2 p \<longrightarrow> f3 t = 3"
    using F2(2) by (simp add: d2 V2 f2_def f3_def V_def)
  have c4: "f3 t = 3" if t: "t \<in> V" "d t = Some p" "f3 p \<noteq> f p" for t p
  proof (cases "f3 p \<noteq> f2 p")
    case True
    with b4 t show ?thesis by blast
  next
    case False
    show ?thesis
    proof (cases "f2 p \<noteq> f1 p")
      case True
      with a4 t have "f2 t = 3" by blast
      then show ?thesis by (rule keep3)
    next
      case f: False
      with False t(3) have "f1 p \<noteq> f p" by simp
      then have "p = th" by (simp add: f1_eq split: if_splits)
      with a2 t have "f2 t = 3" by blast
      then show ?thesis by (rule keep3)
    qed
  qed
  show "cascade_full s (th # rest) s'"
    unfolding cascade_full_def
  proof (intro conjI)
    show "\<forall>th\<in>set (th # rest). status (heap s' th) = 3"
      using th3 b2 by (simp add: f3_def)
    show "\<forall>t\<in>set (thread_values s). \<forall>p. depends (heap s t) = Some p \<longrightarrow>
            status (heap s' p) \<noteq> status (heap s p) \<longrightarrow> status (heap s' t) = 3"
      using c4 by (simp add: f_def f3_def d_def V_def)
  qed
qed

lemma abort_loop_cascade:
  "cascade_pre s ths \<Longrightarrow>
   status_only s (state_after (abort_loop depth s ths)) \<and>
   cascade_part s ths (state_after (abort_loop depth s ths)) \<and>
   (\<forall>s'. abort_loop depth s ths = Returned s' \<longrightarrow> cascade_full s ths s')"
proof (induction depth s ths rule: abort_loop.induct)
  case (1 depth s)
  then have "counted s" by (simp add: cascade_pre_def)
  then show ?case by (simp add: status_only_refl cascade_part_refl cascade_full_Nil)
next
  case (2 depth s th rest)
  let ?s1 = "skip s th"
  let ?deps = "dependents ?s1 th"
  let ?N = "if depth = 0 then RuntimeError ?s1 else abort_loop (depth - 1) ?s1 ?deps"
  note pre = "2.prems"
  have pre1: "cascade_pre ?s1 ?deps" using pre by (rule cascade_pre_skip)
  have N: "status_only ?s1 (state_after ?N) \<and> cascade_part ?s1 ?deps (state_after ?N) \<and>
           (\<forall>s'. ?N = Returned s' \<longrightarrow> cascade_full ?s1 ?deps s')"
  proof (cases "depth = 0")
    case True
    from pre1 have "counted ?s1" by (simp add: cascade_pre_def)
    with True show ?thesis by (simp add: status_only_refl cascade_part_refl)
  next
    case False
    from "2.IH"(1)[OF False pre1] False show ?thesis by simp
  qed
  have eq: "abort_loop depth s (th # rest) =
      (case ?N of RuntimeError s' \<Rightarrow> RuntimeError s' | Returned s' \<Rightarrow> abort_loop depth s' rest)"
    by simp
  show ?case
  proof (cases ?N)
    case (RuntimeError s2)
    with N have so: "status_only ?s1 s2" and p1: "cascade_part ?s1 ?deps s2" by simp_all
    from eq RuntimeError have r: "abort_loop depth s (th # rest) = RuntimeError s2" by simp
    have "counted s2" using p1 by (rule cascade_partD)
    then have p2: "cascade_part s2 rest s2" by (rule cascade_part_refl)
    have "cascade_part s (th # rest) s2"
      using pre refl so p1 status_only_refl p2 by (rule cascade_Cons(1))
    moreover have "status_only s s2"
      using status_only_skip so by (rule status_only_trans)
    ultimately show ?thesis unfolding r by simp
  next
    case (Returned s2)
    with N have so: "status_only ?s1 s2" and p1: "cascade_part ?s1 ?deps s2"
      and f1: "cascade_full ?s1 ?deps s2" by simp_all
    from eq Returned have r: "abort_loop depth s (th # rest) = abort_loop depth s2 rest" by simp
    have pre2: "cascade_pre s2 rest"
      using pre refl so p1 by (rule cascade_pre_rest)
    from "2.IH"(2)[OF Returned pre2]
    have so2: "status_only s2 (state_after (abort_loop depth s2 rest))"
      and p2: "cascade_part s2 rest (state_after (abort_loop depth s2 rest))"
      and f2: "\<forall>s'. abort_loop depth s2 rest = Returned s' \<longrightarrow> cascade_full s2 rest s'"
      by blast+
    have "cascade_part s (th # rest) (state_after (abort_loop depth s2 rest))"
      using pre refl so p1 so2 p2 by (rule cascade_Cons(1))
    moreover have "status_only s (state_after (abort_loop depth s2 rest))"
      using status_only_skip so so2 by (blast intro: status_only_trans)
    moreover have "cascade_full s (th # rest) s'" if "abort_loop depth s2 rest = Returned s'" for s'
    proof -
      from that f2 have "cascade_full s2 rest s'" by blast
      moreover from that so2 p2 have "status_only s2 s'" "cascade_part s2 rest s'" by simp_all
      ultimately show ?thesis
        using cascade_Cons(2)[OF pre refl so p1 _ _ f1] by blast
    qed
    ultimately show ?thesis unfolding r by blast
  qed
qed

section \<open>Registration and the invariant of a run\<close>

text \<open>
  Every state a registration script produces is well formed and untouched. Starting the
  run establishes the invariant; each completion of a started thread keeps it.
\<close>

lemma set_update_subset: "set (AList.update k v al) \<subseteq> insert (k, v) (set al)"
  by (induction al) auto

lemma length_update:
  "length (AList.update k v al) = (if k \<in> fst ` set al then length al else Suc (length al))"
  by (induction al) auto

lemma wf_init: "well_formed MultiThread_init"
  by (simp add: well_formed_def MultiThread_init_def acyclic_deps_def allocated_def unallocated_def
      thread_values_def)

lemma fresh_init: "fresh MultiThread_init"
  by (simp add: fresh_def MultiThread_init_def unallocated_def)

lemma wf_new:
  assumes "well_formed s" and "dep = None \<or> (\<exists>p. dep = Some p \<and> p < next_ref s)"
  shows "well_formed (snd (DemoGridThread_init s nm dep))"
proof -
  let ?s' = "snd (DemoGridThread_init s nm dep)"
  have h: "heap ?s' r = (if r = next_ref s then
            \<lparr>name = nm, exception = None, stack_trace = None, status = -1,
             depends = dep, started = False\<rparr> else heap s r)" for r
    by (simp add: DemoGridThread_init_def)
  have t: "threads ?s' = threads s" "next_ref ?s' = Suc (next_ref s)" "num_threads ?s' = num_threads s"
    by (simp_all add: DemoGridThread_init_def)
  from assms(1) have al: "\<forall>e\<in>set (threads s). snd e < next_ref s"
    by (simp add: well_formed_def allocated_def thread_values_def)
  have "acyclic_deps ?s'"
    using assms by (auto simp: well_formed_def acyclic_deps_def h)
  moreover have "allocated ?s'"
    using al by (auto simp: allocated_def thread_values_def t)
  moreover have "\<forall>e\<in>set (threads ?s'). name (heap ?s' (snd e)) = fst e"
    using assms(1) al by (auto simp: well_formed_def h t)
  ultimately show ?thesis using assms(1) by (simp add: well_formed_def t)
qed

lemma fresh_new: "fresh s \<Longrightarrow> fresh (snd (DemoGridThread_init s nm dep))"
  by (simp add: fresh_def DemoGridThread_init_def)

lemma wf_add:
  assumes "well_formed s" and "r < next_ref s"
  shows "well_formed (add_thread s r)"
proof -
  let ?s' = "add_thread s r"
  have t: "threads ?s' = AList.update (name (heap s r)) r (threads s)" "heap ?s' = heap s"
    "next_ref ?s' = next_ref s" "num_threads ?s' = num_threads s + 1"
    by (simp_all add: add_thread_def)
  have sub: "set (threads ?s') \<subseteq> insert (name (heap s r), r) (set (threads s))"
    unfolding t by (rule set_update_subset)
  have "acyclic_deps ?s'" using assms(1) by (simp add: well_formed_def acyclic_deps_def t)
  moreover have "allocated ?s'"
    using assms sub by (auto simp: well_formed_def allocated_def thread_values_def t(3))
  moreover have "\<forall>e\<in>set (threads ?s'). name (heap ?s' (snd e)) = fst e"
    using assms(1) sub by (auto simp: well_formed_def t(2))
  moreover have "distinct (map fst (threads ?s'))"
    using assms(1) by (simp add: well_formed_def t distinct_update)
  moreover have "int (length (threads ?s')) \<le> num_threads ?s'"
    using assms(1) by (simp add: well_formed_def t length_update)
  ultimately show ?thesis by (simp add: well_formed_def)
qed

lemma fresh_add: "fresh s \<Longrightarrow> fresh (add_thread s r)"
  by (simp add: fresh_def add_thread_def)

lemma configure_step_wf:
  "configure_step s x = Some s' \<Longrightarrow> well_formed s \<Longrightarrow> fresh s \<Longrightarrow> well_formed s' \<and> fresh s'"
  by (cases "(s, x)" rule: configure_step.cases)
    (auto simp: wf_new wf_add fresh_new fresh_add split: if_splits)

lemma configure_wf:
  "configure s ops = Some s' \<Longrightarrow> well_formed s \<Longrightarrow> fresh s \<Longrightarrow> well_formed s' \<and> fresh s'"
proof (induction ops arbitrary: s)
  case Nil
  then show ?case by simp
next
  case (Cons x xs)
  from Cons.prems(1) obtain s1 where 1: "configure_step s x = Some s1" and 2: "configure s1 xs = Some s'"
    by (auto split: option.splits)
  from configure_step_wf[OF 1 Cons.prems(2,3)] Cons.IH[OF 2] show ?case by blast
qed

lemma wf_distinct_values: "well_formed s \<Longrightarrow> distinct (thread_values s)"
proof -
  assume w: "well_formed s"
  then have d: "distinct (map fst (threads s))"
    and n: "\<forall>e\<in>set (threads s). name (heap s (snd e)) = fst e"
    by (simp_all add: well_formed_def)
  have "inj_on snd (set (threads s))"
  proof (rule inj_onI)
    fix x y assume x: "x \<in> set (threads s)" and y: "y \<in> set (threads s)" and e: "snd x = snd y"
    with n have "fst x = fst y" by metis
    with e show "x = y" by (simp add: prod_eq_iff)
  qed
  moreover from d have "distinct (threads s)" by (simp add: distinct_map)
  ultimately show ?thesis by (simp add: thread_values_def distinct_map)
qed

lemma start_all_eq:
  "distinct ts \<Longrightarrow> \<forall>t\<in>set ts. \<not> started (heap s t) \<Longrightarrow>
   start_all s ts =
     Returned (s\<lparr>heap := (\<lambda>t. if t \<in> set ts then (heap s t)\<lparr>started := True\<rparr> else heap s t)\<rparr>)"
proof (induction ts arbitrary: s)
  case Nil
  then show ?case by simp
next
  case (Cons t ts)
  let ?s1 = "s\<lparr>heap := (heap s)(t := (heap s t)\<lparr>started := True\<rparr>)\<rparr>"
  from Cons.prems have st: "start s t = Returned ?s1" by (simp add: start_def)
  have "start_all ?s1 ts =
     Returned (?s1\<lparr>heap := (\<lambda>u. if u \<in> set ts then (heap ?s1 u)\<lparr>started := True\<rparr> else heap ?s1 u)\<rparr>)"
    using Cons.prems by (intro Cons.IH) auto
  moreover have "(\<lambda>u. if u \<in> set ts then (heap ?s1 u)\<lparr>started := True\<rparr> else heap ?s1 u) =
     (\<lambda>u. if u \<in> set (t # ts) then (heap s u)\<lparr>started := True\<rparr> else heap s u)"
    using Cons.prems by (auto simp: fun_eq_iff)
  ultimately show ?case using st by simp
qed

lemma launch_inv:
  assumes w: "well_formed c" and f: "fresh c"
  shows "\<exists>s0. MultiThread_run c = Returned s0 \<and> run_inv s0 \<and> threads s0 = threads c \<and>
              num_threads s0 = num_threads c \<and>
              (\<forall>r. depends (heap s0 r) = depends (heap c r))"
proof -
  let ?roots = "filter (\<lambda>th. depends (heap c th) = None) (thread_values c)"
  let ?c0 = "c\<lparr>done_threads := 0\<rparr>"
  let ?s0 = "?c0\<lparr>heap := (\<lambda>t. if t \<in> set ?roots then (heap ?c0 t)\<lparr>started := True\<rparr> else heap ?c0 t)\<rparr>"
  have dv: "distinct (thread_values c)" using w by (rule wf_distinct_values)
  have fr: "status (heap c r) = -1" "\<not> started (heap c r)" "exception (heap c r) = None"
    "stack_trace (heap c r) = None" for r
    using f by (simp_all add: fresh_def)
  have run: "MultiThread_run c = Returned ?s0"
    unfolding MultiThread_run_def using dv fr by (intro start_all_eq) simp_all
  have V: "thread_values ?s0 = thread_values c" by (simp add: thread_values_def)
  have h: "status (heap ?s0 r) = -1" "exception (heap ?s0 r) = None" "stack_trace (heap ?s0 r) = None"
    "depends (heap ?s0 r) = depends (heap c r)" "name (heap ?s0 r) = name (heap c r)"
    "started (heap ?s0 r) = (r \<in> set (thread_values c) \<and> depends (heap c r) = None)" for r
    using fr by simp_all
  have 1: "well_formed ?s0"
    using w unfolding well_formed_def acyclic_deps_def allocated_def V h by simp
  have 2: "untouched_outside ?s0"
    unfolding untouched_outside_def pend_def V h by simp
  have 3: "status_ok ?s0"
    unfolding status_ok_def h by simp
  have 4: "deps_ok ?s0"
    unfolding deps_ok_def V h by auto
  have 5: "counted ?s0"
    unfolding counted_def V h by simp
  have 6: "done_ok ?s0"
    using f by (simp add: done_ok_def fresh_def)
  have 7: "exn_ok ?s0"
    unfolding exn_ok_def h by simp
  from 1 2 3 4 5 6 7 have "run_inv ?s0" by (simp add: run_inv_def)
  with run show ?thesis by (intro exI[of _ ?s0]) (simp add: h)
qed

lemma inv_running_registered:
  "run_inv s \<Longrightarrow> running s r \<Longrightarrow> r \<in> set (thread_values s)"
  by (auto simp: run_inv_def untouched_outside_def running_def pend_def)

lemma inv_not_self_dependent: "run_inv s \<Longrightarrow> r \<notin> set (dependents s r)"
  by (auto simp: run_inv_def well_formed_def acyclic_deps_def dependents_def)

lemma inv_running_children_pend:
  assumes "run_inv s" "running s r" "t \<in> set (dependents s r)"
  shows "pend s t"
proof -
  from assms(3) have t: "t \<in> set (thread_values s)" "depends (heap s t) = Some r"
    by (simp_all add: dependents_def)
  from assms(2) have r: "status (heap s r) = -1" by (simp add: running_def)
  from assms(1) t r have a: "\<not> started (heap s t)" "status (heap s t) \<noteq> 3"
    by (auto simp: run_inv_def deps_ok_def)
  from assms(1) have "status (heap s t) \<in> {-1, 0, 1, 2, 3}"
    "status (heap s t) \<in> {0, 1, 2} \<longrightarrow> started (heap s t)"
    by (simp_all add: run_inv_def status_ok_def)
  with a show ?thesis by (auto simp: pend_def)
qed

lemma run_returns_effect:
  assumes i: "run_inv s" and r: "running s r"
  shows "\<exists>s'. DemoGridThread_run depth s r Returns = Returned s' \<and> success_post s r s'"
proof -
  let ?s1 = "s\<lparr>heap := (heap s)(r := (heap s r)\<lparr>status := 0\<rparr>)\<rparr>"
  let ?s2 = "?s1\<lparr>done_threads := done_threads ?s1 + 1\<rparr>"
  let ?T = "dependents s r"
  let ?s3 = "?s2\<lparr>heap := (\<lambda>t. if t \<in> set ?T then (heap ?s2 t)\<lparr>started := True\<rparr> else heap ?s2 t)\<rparr>"
  have nr: "r \<notin> set ?T" using i by (rule inv_not_self_dependent)
  have dep: "dependents ?s2 r = ?T"
    unfolding dependents_def thread_values_def by (rule filter_cong) auto
  have dT: "distinct ?T"
    using wf_distinct_values[of s] i by (simp add: dependents_def run_inv_def)
  have un: "\<forall>t\<in>set ?T. \<not> started (heap ?s2 t)"
    using inv_running_children_pend[OF i r] nr by (auto simp: pend_def)
  have sa: "start_all ?s2 ?T = Returned ?s3"
    using dT un by (rule start_all_eq)
  have st0: "status (heap ?s1 r) = 0" by simp
  have ts: "thread_success ?s1 r =
      Returned (if done_threads ?s3 = num_threads ?s3 then ?s3\<lparr>all_done := True\<rparr> else ?s3)"
    unfolding thread_success_def Let_def dep sa by (simp only: result.case)
  have "DemoGridThread_run depth s r Returns = thread_success ?s1 r"
    unfolding DemoGridThread_run_def Let_def outcome.case
    by (subst if_P[OF st0]) (rule refl)
  with ts have run: "DemoGridThread_run depth s r Returns =
      Returned (if done_threads ?s3 = num_threads ?s3 then ?s3\<lparr>all_done := True\<rparr> else ?s3)"
    by (simp only:)
  have "success_post s r (if done_threads ?s3 = num_threads ?s3 then ?s3\<lparr>all_done := True\<rparr> else ?s3)"
    using nr by (auto simp: success_post_def)
  with run show ?thesis by blast
qed

lemma run_invD:
  assumes "run_inv s"
  shows "well_formed s" and "untouched_outside s" and "status_ok s" and "deps_ok s"
    and "counted s" and "done_ok s" and "exn_ok s"
  using assms unfolding run_inv_def by blast+

lemma success_post_inv:
  assumes i: "run_inv s" and r: "running s r" and p: "success_post s r s'"
  shows "run_inv s'"
proof -
  define f where "f = (\<lambda>t. status (heap s t))"
  define g where "g = (\<lambda>t. started (heap s t))"
  define d where "d = (\<lambda>t. depends (heap s t))"
  define V where "V = set (thread_values s)"
  have rV: "r \<in> V" unfolding V_def using i r by (rule inv_running_registered)
  have fr: "f r = -1" "g r" using r by (simp_all add: running_def f_def g_def)
  have nr: "d r \<noteq> Some r" using inv_not_self_dependent[OF i, of r] rV
    by (simp add: dependents_def d_def V_def)
  from p have V': "thread_values s' = thread_values s" "threads s' = threads s"
    "next_ref s' = next_ref s" "num_threads s' = num_threads s"
    by (simp_all add: success_post_def thread_values_def)
  from p have hp: "heap s' t =
         (if t = r then (heap s r)\<lparr>status := 0\<rparr>
          else if t \<in> set (dependents s r) then (heap s t)\<lparr>started := True\<rparr>
          else heap s t)" for t
    by (simp add: success_post_def)
  have h: "status (heap s' t) = (if t = r then 0 else f t)"
    "started (heap s' t) = (g t \<or> (t \<in> V \<and> d t = Some r))"
    "depends (heap s' t) = d t" "name (heap s' t) = name (heap s t)"
    "exception (heap s' t) = exception (heap s t)"
    "stack_trace (heap s' t) = stack_trace (heap s t)" for t
    using fr nr by (auto simp: hp f_def g_def d_def V_def dependents_def)
  have w: "well_formed s" using i by (rule run_invD)
  have uo: "\<forall>t. t \<notin> V \<longrightarrow> f t = -1 \<and> \<not> g t"
    using run_invD(2)[OF i] by (simp add: untouched_outside_def pend_def f_def g_def V_def)
  have so: "\<forall>t. f t \<in> {-1, 0, 1, 2, 3} \<and> (f t = 3 \<longrightarrow> \<not> g t) \<and> (f t \<in> {0, 1, 2} \<longrightarrow> g t)"
    using run_invD(3)[OF i] by (simp add: status_ok_def f_def g_def)
  have dk: "\<forall>t\<in>V. (d t = None \<longrightarrow> g t) \<and>
               (\<forall>p. d t = Some p \<longrightarrow> (g t \<longleftrightarrow> f p = 0) \<and> (f t = 3 \<longrightarrow> f p \<in> {1, 2, 3}))"
    using run_invD(4)[OF i] by (simp add: deps_ok_def f_def g_def d_def V_def)
  have cn: "counted s" and dn: "done_ok s" and ex: "exn_ok s"
    using i by (rule run_invD)+
  have 1: "well_formed s'"
    using w unfolding well_formed_def acyclic_deps_def allocated_def V' h by (simp add: d_def)
  have 2: "untouched_outside s'"
    using uo rV unfolding untouched_outside_def pend_def V' h by (auto simp: V_def)
  have 3: "status_ok s'"
    using so fr dk unfolding status_ok_def h by auto
  have 4: "deps_ok s'"
    unfolding deps_ok_def V' h
  proof (intro ballI conjI allI impI)
    fix t assume "t \<in> set (thread_values s)" "d t = None"
    with dk show "g t \<or> (t \<in> V \<and> d t = Some r)" by (simp add: V_def)
  next
    fix t p assume t: "t \<in> set (thread_values s)" "d t = Some p"
    with dk have a: "g t \<longleftrightarrow> f p = 0" by (simp add: V_def)
    show "(g t \<or> (t \<in> V \<and> d t = Some r)) = ((if p = r then 0 else f p) = 0)"
      using a t fr by (auto simp: V_def)
  next
    fix t p assume t: "t \<in> set (thread_values s)" "d t = Some p"
      and 3: "(if t = r then 0 else f t) = 3"
    with dk have a: "f t = 3 \<longrightarrow> f p \<in> {1, 2, 3}" by (simp add: V_def)
    from 3 have "t \<noteq> r" "f t = 3" by (auto split: if_splits)
    with a have fp: "f p \<in> {1, 2, 3}" by simp
    with fr have "p \<noteq> r" by auto
    with fp show "(if p = r then 0 else f p) \<in> {1, 2, 3}" by simp
  qed
  have 5: "counted s'"
  proof -
    have "length (filter (\<lambda>t. status (heap s' t) \<noteq> -1) (thread_values s)) =
          Suc (length (filter (\<lambda>t. status (heap s t) \<noteq> -1) (thread_values s)))"
      using wf_distinct_values[OF w] rV fr
      by (intro length_filter_flip[where x = r]) (auto simp: h f_def V_def)
    with cn p show ?thesis by (simp add: counted_def V' success_post_def)
  qed
  have lt: "done_threads s < num_threads s"
  proof -
    have "length (filter (\<lambda>t. status (heap s t) \<noteq> -1) (thread_values s)) <
          length (thread_values s)"
      using rV fr by (intro length_filter_less[where x = r]) (simp_all add: V_def f_def)
    with cn w show ?thesis by (simp add: counted_def well_formed_def thread_values_def)
  qed
  have ge: "0 \<le> done_threads s" using cn by (simp add: counted_def)
  have 6: "done_ok s'"
    using dn lt ge p by (auto simp: done_ok_def success_post_def)
  have 7: "exn_ok s'"
    using ex fr unfolding exn_ok_def h by (auto simp: f_def)
  from 1 2 3 4 5 6 7 show ?thesis by (simp add: run_inv_def)
qed

lemma fail_state_simps:
  "threads (fail_state s r e tr) = threads s"
  "thread_values (fail_state s r e tr) = thread_values s"
  "next_ref (fail_state s r e tr) = next_ref s"
  "num_threads (fail_state s r e tr) = num_threads s"
  "all_done (fail_state s r e tr) = all_done s"
  "done_threads (fail_state s r e tr) = done_threads s + 1"
  "abort (fail_state s r e tr) = (abort s \<or> e \<noteq> ThreadAbortException)"
  "status (heap (fail_state s r e tr) t) =
     (if t = r then (if e = ThreadAbortException then 2 else 1) else status (heap s t))"
  "depends (heap (fail_state s r e tr) t) = depends (heap s t)"
  "started (heap (fail_state s r e tr) t) = started (heap s t)"
  "name (heap (fail_state s r e tr) t) = name (heap s t)"
  "exception (heap (fail_state s r e tr) t) = (if t = r then Some e else exception (heap s t))"
  "stack_trace (heap (fail_state s r e tr) t) = (if t = r then Some tr else stack_trace (heap s t))"
  by (simp_all add: fail_state_def thread_values_def)

lemma dependents_fail_state: "dependents (fail_state s r e tr) t = dependents s t"
  unfolding dependents_def fail_state_simps by (rule filter_cong) (simp_all add: fail_state_simps)

lemma finish_check_simps:
  "heap (finish_check s) = heap s" "threads (finish_check s) = threads s"
  "thread_values (finish_check s) = thread_values s"
  "next_ref (finish_check s) = next_ref s" "num_threads (finish_check s) = num_threads s"
  "done_threads (finish_check s) = done_threads s" "abort (finish_check s) = abort s"
  "all_done (finish_check s) = (all_done s \<or> done_threads s = num_threads s)"
  by (simp_all add: finish_check_def thread_values_def)

lemma thread_failure_unfold:
  "thread_failure depth
     (s\<lparr>heap := (heap s)(r := (heap s r)
          \<lparr>exception := Some e, stack_trace := Some tr, status := 1\<rparr>)\<rparr>) r =
   (case abort_dependents depth (fail_state s r e tr) r of
      RuntimeError s3 \<Rightarrow> RuntimeError s3 | Returned s3 \<Rightarrow> Returned (finish_check s3))"
proof -
  let ?s1 = "s\<lparr>heap := (heap s)(r := (heap s r)
          \<lparr>exception := Some e, stack_trace := Some tr, status := 1\<rparr>)\<rparr>"
  let ?s2 = "(if exception (heap ?s1 r) \<noteq> Some ThreadAbortException
                then ?s1\<lparr>abort := True\<rparr>
                else ?s1\<lparr>heap := (heap ?s1)(r := (heap ?s1 r)\<lparr>status := 2\<rparr>)\<rparr>)"
  have eq: "?s2\<lparr>done_threads := done_threads ?s2 + 1\<rparr> = fail_state s r e tr"
    by (cases "e = ThreadAbortException") (simp_all add: fail_state_def)
  show ?thesis
    unfolding thread_failure_def Let_def eq finish_check_def
    by (rule refl)
qed

lemma DemoGridThread_run_Raises:
  "DemoGridThread_run depth s r (Raises e tr) =
   (case abort_dependents depth (fail_state s r e tr) r of
      RuntimeError s3 \<Rightarrow> RuntimeError s3
    | Returned s3 \<Rightarrow>
        if status (heap (finish_check s3) r) = 0 then thread_success (finish_check s3) r
        else Returned (finish_check s3))"
  unfolding DemoGridThread_run_def Let_def outcome.case thread_failure_unfold
  by (cases "abort_dependents depth (fail_state s r e tr) r") simp_all

lemma fail_state_cascade_pre:
  assumes i: "run_inv s" and r: "running s r"
  shows "cascade_pre (fail_state s r e tr) (dependents s r)"
proof -
  let ?s3 = "fail_state s r e tr"
  define f where "f = (\<lambda>t. status (heap s t))"
  define g where "g = (\<lambda>t. started (heap s t))"
  define d where "d = (\<lambda>t. depends (heap s t))"
  define V where "V = set (thread_values s)"
  define b :: int where "b = (if e = ThreadAbortException then 2 else 1)"
  have b: "b \<noteq> -1" by (simp add: b_def)
  have rV: "r \<in> V" unfolding V_def using i r by (rule inv_running_registered)
  have fr: "f r = -1" "g r" using r by (simp_all add: running_def f_def g_def)
  have w: "well_formed s" using i by (rule run_invD)
  have dV: "distinct (thread_values s)" using w by (rule wf_distinct_values)
  have acy: "acyclic_deps s" using w by (simp add: well_formed_def)
  have so: "\<forall>t. f t \<in> {-1, 0, 1, 2, 3} \<and> (f t = 3 \<longrightarrow> \<not> g t) \<and> (f t \<in> {0, 1, 2} \<longrightarrow> g t)"
    using run_invD(3)[OF i] by (simp add: status_ok_def f_def g_def)
  have dk: "\<forall>t\<in>V. (d t = None \<longrightarrow> g t) \<and>
               (\<forall>p. d t = Some p \<longrightarrow> (g t \<longleftrightarrow> f p = 0) \<and> (f t = 3 \<longrightarrow> f p \<in> {1, 2, 3}))"
    using run_invD(4)[OF i] by (simp add: deps_ok_def f_def g_def d_def V_def)
  have h: "status (heap ?s3 t) = (if t = r then b else f t)"
    "started (heap ?s3 t) = g t" "depends (heap ?s3 t) = d t" for t
    by (simp_all add: fail_state_simps f_def g_def d_def b_def)
  have V3: "thread_values ?s3 = thread_values s" by (simp add: fail_state_simps)
  have child: "f t = -1 \<and> \<not> g t" if "t \<in> V" "d t = Some p" "f p = -1" for t p
  proof -
    from dk that have "\<not> g t" "f t \<noteq> 3" by auto
    with so show ?thesis by (metis insertE singletonD insertI1 insertI2)
  qed
  have 1: "acyclic_deps ?s3" using acy by (simp add: acyclic_deps_def fail_state_simps)
  have 2: "distinct (thread_values ?s3)" using dV by (simp add: V3)
  have 3: "set (dependents s r) \<subseteq> set (thread_values ?s3)" "distinct (dependents s r)"
    using dV by (auto simp: dependents_def V3)
  have 4: "\<forall>th\<in>set (dependents s r). pend ?s3 th \<and>
             (\<exists>p. depends (heap ?s3 th) = Some p \<and> status (heap ?s3 p) \<noteq> -1)"
  proof
    fix t assume "t \<in> set (dependents s r)"
    then have t: "t \<in> V" "d t = Some r" by (simp_all add: dependents_def V_def d_def)
    with child fr have "f t = -1 \<and> \<not> g t" by blast
    moreover from this fr have "t \<noteq> r" by auto
    ultimately show "pend ?s3 t \<and> (\<exists>p. depends (heap ?s3 t) = Some p \<and> status (heap ?s3 p) \<noteq> -1)"
      using t b by (simp add: pend_def h)
  qed
  have 5: "\<forall>t\<in>set (thread_values ?s3). \<forall>p. depends (heap ?s3 t) = Some p \<longrightarrow>
             pend ?s3 p \<longrightarrow> pend ?s3 t"
  proof (intro ballI allI impI)
    fix t p assume t: "t \<in> set (thread_values ?s3)" "depends (heap ?s3 t) = Some p" "pend ?s3 p"
    then have p: "p \<noteq> r" "f p = -1" using b by (auto simp: pend_def h split: if_splits)
    from t have "t \<in> V" "d t = Some p" by (simp_all add: V3 V_def h)
    with child p have c: "f t = -1 \<and> \<not> g t" by blast
    with fr have "t \<noteq> r" by auto
    with c show "pend ?s3 t" by (simp add: pend_def h)
  qed
  have 6: "counted ?s3"
  proof -
    have "length (filter (\<lambda>t. status (heap ?s3 t) \<noteq> -1) (thread_values s)) =
          Suc (length (filter (\<lambda>t. status (heap s t) \<noteq> -1) (thread_values s)))"
      using dV rV fr b
      by (intro length_filter_flip[where x = r]) (auto simp: h f_def V_def)
    with run_invD(5)[OF i] show ?thesis by (simp add: counted_def fail_state_simps)
  qed
  from 1 2 3 4 5 6 show ?thesis by (simp add: cascade_pre_def)
qed

lemma running_not_done:
  assumes i: "run_inv s" and r: "running s r"
  shows "done_threads s < num_threads s" and "\<not> all_done s"
proof -
  have rV: "r \<in> set (thread_values s)" using i r by (rule inv_running_registered)
  have "length (filter (\<lambda>t. status (heap s t) \<noteq> -1) (thread_values s)) <
        length (thread_values s)"
    using rV r by (intro length_filter_less[where x = r]) (simp_all add: running_def)
  with run_invD(5)[OF i] run_invD(1)[OF i] show lt: "done_threads s < num_threads s"
    by (simp add: counted_def well_formed_def thread_values_def)
  with run_invD(6)[OF i] show "\<not> all_done s" by (simp add: done_ok_def)
qed

lemma run_raises_effect:
  assumes i: "run_inv s" and r: "running s r"
  shows "status_only (fail_state s r e tr)
           (state_after (abort_dependents depth (fail_state s r e tr) r))"
    and "cascade_part (fail_state s r e tr) (dependents s r)
           (state_after (abort_dependents depth (fail_state s r e tr) r))"
    and "abort_dependents depth (fail_state s r e tr) r = Returned s3 \<Longrightarrow>
           cascade_full (fail_state s r e tr) (dependents s r) s3"
    and "DemoGridThread_run depth s r (Raises e tr) =
           (case abort_dependents depth (fail_state s r e tr) r of
              RuntimeError s3 \<Rightarrow> RuntimeError s3
            | Returned s3 \<Rightarrow> Returned (finish_check s3))"
proof -
  let ?s0 = "fail_state s r e tr"
  let ?R = "abort_dependents depth ?s0 r"
  have pre: "cascade_pre ?s0 (dependents s r)" using i r by (rule fail_state_cascade_pre)
  have R: "status_only ?s0 (state_after ?R) \<and> cascade_part ?s0 (dependents s r) (state_after ?R) \<and>
           (\<forall>s'. ?R = Returned s' \<longrightarrow> cascade_full ?s0 (dependents s r) s')"
  proof (cases "depth = 0")
    case True
    from pre have "counted ?s0" by (simp add: cascade_pre_def)
    with True show ?thesis
      by (simp add: abort_dependents_def status_only_refl cascade_part_refl)
  next
    case False
    then have "?R = abort_loop (depth - 1) ?s0 (dependents s r)"
      by (simp add: abort_dependents_def dependents_fail_state)
    with abort_loop_cascade[OF pre, of "depth - 1"] show ?thesis by simp
  qed
  from R show so: "status_only ?s0 (state_after ?R)"
    and part: "cascade_part ?s0 (dependents s r) (state_after ?R)" by blast+
  from R show "cascade_full ?s0 (dependents s r) s3" if "?R = Returned s3"
    using that by blast
  have "status (heap (finish_check s3) r) \<noteq> 0" if ret: "?R = Returned s3" for s3
  proof -
    have "status (heap ?s0 r) \<noteq> -1" by (simp add: fail_state_simps)
    with spec[OF cascade_partD(1)[OF part], of r] ret
    have "status (heap s3 r) = status (heap ?s0 r)"
      by (simp add: pend_def)
    then show ?thesis by (simp add: finish_check_simps fail_state_simps)
  qed
  then show "DemoGridThread_run depth s r (Raises e tr) =
           (case ?R of RuntimeError s3 \<Rightarrow> RuntimeError s3
            | Returned s3 \<Rightarrow> Returned (finish_check s3))"
    unfolding DemoGridThread_run_Raises by (cases ?R) simp_all
qed

lemma run_inv_finish_check:
  assumes "run_inv s" and "0 < done_threads s"
  shows "run_inv (finish_check s)"
proof -
  have h: "heap (finish_check s) = heap s" by (simp add: finish_check_simps)
  have "well_formed (finish_check s)"
    using run_invD(1)[OF assms(1)]
    by (simp add: well_formed_def acyclic_deps_def allocated_def finish_check_simps)
  moreover have "untouched_outside (finish_check s)"
    using run_invD(2)[OF assms(1)]
    by (simp add: untouched_outside_def pend_def finish_check_simps)
  moreover have "status_ok (finish_check s)"
    using run_invD(3)[OF assms(1)] by (simp add: status_ok_def h)
  moreover have "deps_ok (finish_check s)"
    using run_invD(4)[OF assms(1)] by (simp add: deps_ok_def finish_check_simps)
  moreover have "counted (finish_check s)"
    using run_invD(5)[OF assms(1)] by (simp add: counted_def finish_check_simps)
  moreover have "done_ok (finish_check s)"
    using run_invD(6)[OF assms(1)] assms(2) by (auto simp: done_ok_def finish_check_simps)
  moreover have "exn_ok (finish_check s)"
    using run_invD(7)[OF assms(1)] by (simp add: exn_ok_def h)
  ultimately show ?thesis by (simp add: run_inv_def)
qed

lemma raises_inv:
  assumes i: "run_inv s" and r: "running s r"
    and so: "status_only (fail_state s r e tr) s3"
    and post: "cascade_part (fail_state s r e tr) (dependents s r) s3"
  shows "run_inv s3" and "0 < done_threads s3" and "\<not> all_done s3"
proof -
  let ?s0 = "fail_state s r e tr"
  let ?s' = "s3"
  define f where "f = (\<lambda>t. status (heap s t))"
  define f3 where "f3 = (\<lambda>t. status (heap s3 t))"
  define g where "g = (\<lambda>t. started (heap s t))"
  define d where "d = (\<lambda>t. depends (heap s t))"
  define V where "V = set (thread_values s)"
  define b :: int where "b = (if e = ThreadAbortException then 2 else 1)"
  define f0 where "f0 = (\<lambda>t. if t = r then b else f t)"
  have b: "b = 1 \<or> b = 2" by (simp add: b_def)
  have rV: "r \<in> V" unfolding V_def using i r by (rule inv_running_registered)
  have fr: "f r = -1" "g r" using r by (simp_all add: running_def f_def g_def)
  have w: "well_formed s" using i by (rule run_invD)
  have uo: "\<forall>t. t \<notin> V \<longrightarrow> f t = -1 \<and> \<not> g t"
    using run_invD(2)[OF i] by (simp add: untouched_outside_def pend_def f_def g_def V_def)
  have sk: "\<forall>t. f t \<in> {-1, 0, 1, 2, 3} \<and> (f t = 3 \<longrightarrow> \<not> g t) \<and> (f t \<in> {0, 1, 2} \<longrightarrow> g t)"
    using run_invD(3)[OF i] by (simp add: status_ok_def f_def g_def)
  have dk: "\<forall>t\<in>V. (d t = None \<longrightarrow> g t) \<and>
               (\<forall>p. d t = Some p \<longrightarrow> (g t \<longleftrightarrow> f p = 0) \<and> (f t = 3 \<longrightarrow> f p \<in> {1, 2, 3}))"
    using run_invD(4)[OF i] by (simp add: deps_ok_def f_def g_def d_def V_def)
  have h0: "status (heap ?s0 t) = f0 t" "started (heap ?s0 t) = g t" "depends (heap ?s0 t) = d t" for t
    by (simp_all add: fail_state_simps f_def g_def d_def b_def f0_def)
  have V0: "thread_values ?s0 = thread_values s" by (simp add: fail_state_simps)
  have V3: "thread_values s3 = thread_values s"
    using status_only_values[OF so] by (simp add: V0)
  have h3: "started (heap s3 t) = g t" "depends (heap s3 t) = d t"
    "name (heap s3 t) = name (heap s t)"
    "exception (heap s3 t) = (if t = r then Some e else exception (heap s t))"
    "stack_trace (heap s3 t) = (if t = r then Some tr else stack_trace (heap s t))" for t
    using status_only_heap[OF so, of t] by (simp_all add: fail_state_simps g_def d_def)
  have t3: "threads s3 = threads s" "next_ref s3 = next_ref s" "num_threads s3 = num_threads s"
    "all_done s3 = all_done s"
    using so by (simp_all add: status_only_def fail_state_simps)
  note P = cascade_partD[OF post]
  have q1: "\<forall>t. f3 t = f0 t \<or> (f0 t = -1 \<and> \<not> g t \<and> f3 t = 3)"
    using P(1) by (simp add: pend_def h0 f3_def)
  have q3: "counted s3" by (rule P(2))
  have q5: "\<forall>t. f3 t \<noteq> f0 t \<longrightarrow> (t \<in> V \<and> d t = Some r) \<or> (\<exists>p. d t = Some p \<and> f3 p \<noteq> f0 p)"
    using P(3) by (simp add: dependents_def h0 f3_def V_def d_def)
  have q6: "\<forall>t. f3 t \<noteq> f0 t \<longrightarrow> t \<in> V"
    using P(4) by (simp add: h0 V0 f3_def V_def)
  have keep: "f3 t = f0 t" if "f0 t \<noteq> -1" for t
    using q1 that by blast
  have f3r: "f3 r = b" using keep[of r] b by (auto simp: f0_def)
  have new: "f t = -1 \<and> \<not> g t \<and> f3 t = 3 \<and> t \<noteq> r \<and> t \<in> V" if "f3 t \<noteq> f0 t" for t
  proof -
    from q1 that have a: "f0 t = -1" "\<not> g t" "f3 t = 3" by blast+
    with b have "t \<noteq> r" by (auto simp: f0_def)
    with a q6 that show ?thesis by (simp add: f0_def)
  qed
  have old: "f3 t = f t" if "f3 t = f0 t" "t \<noteq> r" for t
    using that by (simp add: f0_def)
  have 1: "well_formed ?s'"
    using w unfolding well_formed_def acyclic_deps_def allocated_def  V3 t3 h3
    by (simp add: d_def)
  have 2: "untouched_outside ?s'"
    unfolding untouched_outside_def pend_def  V3 h3
  proof (intro allI impI)
    fix t assume "t \<notin> set (thread_values s)"
    then have t: "t \<notin> V" by (simp add: V_def)
    with new have "f3 t = f0 t" by blast
    moreover from t rV have "t \<noteq> r" by blast
    ultimately show "status (heap s3 t) = -1 \<and> \<not> g t" using uo t by (simp add: f3_def f0_def)
  qed
  have 3: "status_ok ?s'"
    unfolding status_ok_def  h3
  proof (intro allI)
    fix t
    show "status (heap s3 t) \<in> {-1, 0, 1, 2, 3} \<and> (status (heap s3 t) = 3 \<longrightarrow> \<not> g t) \<and>
          (status (heap s3 t) \<in> {0, 1, 2} \<longrightarrow> g t)"
    proof (cases "f3 t = f0 t")
      case False
      from new[OF False] show ?thesis by (simp add: f3_def)
    next
      case True
      show ?thesis
      proof (cases "t = r")
        case True
        with f3r b fr show ?thesis by (auto simp: f3_def)
      next
        case False
        with True have "f3 t = f t" by (rule old)
        with sk show ?thesis by (simp add: f3_def)
      qed
    qed
  qed
  have 4: "deps_ok ?s'"
    unfolding deps_ok_def V3 h3
  proof (intro ballI conjI allI impI)
    fix t assume "t \<in> set (thread_values s)" "d t = None"
    with dk show "g t" by (simp add: V_def)
  next
    fix t p assume "t \<in> set (thread_values s)" and dt: "d t = Some p"
    then have tV: "t \<in> V" by (simp add: V_def)
    with dk dt have a: "g t \<longleftrightarrow> f p = 0" by simp
    have p0: "f3 p = 0 \<longleftrightarrow> f p = 0"
    proof (cases "f3 p = f0 p")
      case False
      from new[OF False] show ?thesis by simp
    next
      case True
      then show ?thesis using b fr by (auto simp: f0_def split: if_splits)
    qed
    show "g t = (status (heap s3 p) = 0)" using a p0 by (simp add: f3_def)
  next
    fix t p assume "t \<in> set (thread_values s)" and dt: "d t = Some p"
      and s3: "status (heap s3 t) = 3"
    then have tV: "t \<in> V" and t3: "f3 t = 3" by (simp_all add: V_def f3_def)
    with dk dt have a: "f t = 3 \<longrightarrow> f p \<in> {1, 2, 3}" by simp
    have "f3 p \<in> {1, 2, 3}"
    proof (cases "f3 t = f0 t")
      case True
      with t3 b have "t \<noteq> r" by (auto simp: f0_def)
      with True t3 have "f t = 3" by (simp add: f0_def)
      with a have fp: "f p \<in> {1, 2, 3}" by simp
      with fr have "p \<noteq> r" by auto
      with fp have "f0 p \<noteq> -1" "f0 p = f p" by (auto simp: f0_def)
      with keep[of p] fp show ?thesis by simp
    next
      case False
      with q5 have "(t \<in> V \<and> d t = Some r) \<or> (\<exists>p. d t = Some p \<and> f3 p \<noteq> f0 p)" by blast
      then show ?thesis
      proof
        assume "t \<in> V \<and> d t = Some r"
        with dt have "p = r" by simp
        with f3r b show ?thesis by auto
      next
        assume "\<exists>p. d t = Some p \<and> f3 p \<noteq> f0 p"
        with dt have "f3 p \<noteq> f0 p" by simp
        from new[OF this] show ?thesis by simp
      qed
    qed
    then show "status (heap s3 p) \<in> {1, 2, 3}" by (simp add: f3_def)
  qed
  have 5: "counted ?s'" by (rule q3)
  have pos: "0 < done_threads s3"
  proof -
    have "r \<in> set (filter (\<lambda>t. status (heap s3 t) \<noteq> -1) (thread_values s3))"
      using rV f3r b by (auto simp: V3 V_def f3_def)
    then have "0 < length (filter (\<lambda>t. status (heap s3 t) \<noteq> -1) (thread_values s3))"
      by (rule length_pos_if_in_set)
    with q3 show ?thesis by (simp add: counted_def)
  qed
  have nd: "\<not> all_done s3"
    using running_not_done(2)[OF i r] by (simp add: t3)
  then have 6: "done_ok ?s'" by (simp add: done_ok_def)
  have ex: "exn_ok s" using i by (rule run_invD)
  have 7: "exn_ok ?s'"
    unfolding exn_ok_def  h3
  proof (intro allI)
    fix t
    show "(status (heap s3 t) \<in> {- 1, 0, 3} \<longrightarrow>
            (if t = r then Some e else exception (heap s t)) = None \<and>
            (if t = r then Some tr else stack_trace (heap s t)) = None) \<and>
         (status (heap s3 t) = 1 \<longrightarrow>
            (\<exists>e' tr'. (if t = r then Some e else exception (heap s t)) = Some e' \<and>
               e' \<noteq> ThreadAbortException \<and>
               (if t = r then Some tr else stack_trace (heap s t)) = Some tr')) \<and>
         (status (heap s3 t) = 2 \<longrightarrow>
            (if t = r then Some e else exception (heap s t)) = Some ThreadAbortException \<and>
            (\<exists>tr'. (if t = r then Some tr else stack_trace (heap s t)) = Some tr'))"
    proof (cases "t = r")
      case True
      with f3r show ?thesis by (simp add: f3_def b_def)
    next
      case False
      from ex have e: "(f t \<in> {-1, 0, 3} \<longrightarrow>
             exception (heap s t) = None \<and> stack_trace (heap s t) = None) \<and>
          (f t = 1 \<longrightarrow>
             (\<exists>e tr. exception (heap s t) = Some e \<and> e \<noteq> ThreadAbortException \<and>
                     stack_trace (heap s t) = Some tr)) \<and>
          (f t = 2 \<longrightarrow>
             exception (heap s t) = Some ThreadAbortException \<and>
             (\<exists>tr. stack_trace (heap s t) = Some tr))"
        by (simp add: exn_ok_def f_def)
      show ?thesis
      proof (cases "f3 t = f0 t")
        case True
        then have "f3 t = f t" using False by (rule old)
        with e False show ?thesis by (simp add: f3_def)
      next
        case c: False
        from new[OF c] e False show ?thesis by (simp add: f3_def)
      qed
    qed
  qed
  from 1 2 3 4 5 6 7 show "run_inv s3" by (simp add: run_inv_def)
  show "0 < done_threads s3" by (rule pos)
  show "\<not> all_done s3" by (rule nd)
qed

lemma same_registry_refl: "same_registry s s"
  by (simp add: same_registry_def)

lemma same_registry_trans:
  "same_registry s s1 \<Longrightarrow> same_registry s1 s2 \<Longrightarrow> same_registry s s2"
  by (simp add: same_registry_def)

lemma same_registry_values: "same_registry s s' \<Longrightarrow> thread_values s' = thread_values s"
  by (simp add: same_registry_def thread_values_def)

lemma success_post_registry: "success_post s r s' \<Longrightarrow> same_registry s s'"
  by (simp add: success_post_def same_registry_def)

lemma raises_registry:
  assumes "status_only (fail_state s r e tr) s3"
  shows "same_registry s s3" and "same_registry s (finish_check s3)"
proof -
  have "depends (heap s3 t) = depends (heap s t) \<and> name (heap s3 t) = name (heap s t)" for t
    using status_only_heap[OF assms, of t] by (simp add: fail_state_simps)
  moreover have "threads s3 = threads s" "num_threads s3 = num_threads s" "next_ref s3 = next_ref s"
    using assms by (simp_all add: status_only_def fail_state_simps)
  ultimately show "same_registry s s3" and "same_registry s (finish_check s3)"
    by (simp_all add: same_registry_def finish_check_simps)
qed

lemma length_filter_less_flip:
  assumes "x \<in> set xs" "P x" "\<not> Q x" "\<forall>y\<in>set xs. Q y \<longrightarrow> P y"
  shows "length (filter Q xs) < length (filter P xs)"
proof -
  have "filter Q xs = filter Q (filter P xs)"
    using assms(4) by (simp add: conj_commute cong: filter_cong) (metis (mono_tags, lifting) filter_cong)
  moreover have "x \<in> set (filter P xs)" using assms by simp
  ultimately show ?thesis using assms(3) by (metis length_filter_less)
qed

lemma finish_progress:
  assumes i: "run_inv s" and r: "running s r"
  shows "\<exists>s'. fire depth s (Finish r out) = Some s' \<and> run_inv s' \<and> same_registry s s' \<and>
              pending_count s' < pending_count s"
proof (cases out)
  case Returns
  from run_returns_effect[OF i r] obtain s' where
    run: "DemoGridThread_run depth s r Returns = Returned s'" and p: "success_post s r s'"
    by blast
  have inv': "run_inv s'" using i r p by (rule success_post_inv)
  have reg: "same_registry s s'" using p by (rule success_post_registry)
  have rV: "r \<in> set (thread_values s)" using i r by (rule inv_running_registered)
  have hp: "status (heap s' t) = (if t = r then 0 else status (heap s t))" for t
    using p by (simp add: success_post_def)
  have "pending_count s' < pending_count s"
    unfolding pending_count_def same_registry_values[OF reg]
    using rV r by (intro length_filter_less_flip[where x = r]) (auto simp: hp running_def)
  with run inv' reg r Returns show ?thesis by simp
next
  case (Raises e tr)
  let ?s0 = "fail_state s r e tr"
  let ?R = "abort_dependents depth ?s0 r"
  let ?s3 = "state_after ?R"
  note E = run_raises_effect[OF i r, where e = e and tr = tr and depth = depth]
  have so: "status_only ?s0 ?s3" and part: "cascade_part ?s0 (dependents s r) ?s3"
    by (rule E)+
  have run: "DemoGridThread_run depth s r (Raises e tr) =
           (case ?R of RuntimeError s3 \<Rightarrow> RuntimeError s3
            | Returned s3 \<Rightarrow> Returned (finish_check s3))"
    by (rule E(4))
  define s' where "s' = state_after (DemoGridThread_run depth s r (Raises e tr))"
  have s': "s' = ?s3 \<or> s' = finish_check ?s3"
    unfolding s'_def run by (cases ?R) simp_all
  note I = raises_inv[OF i r so part]
  have inv': "run_inv s'"
    using s' I(1) run_inv_finish_check[OF I(1) I(2)] by blast
  have reg: "same_registry s s'"
    using s' raises_registry[OF so] by blast
  have rV: "r \<in> set (thread_values s)" using i r by (rule inv_running_registered)
  have hs: "status (heap s' t) = status (heap ?s3 t)" for t
    using s' by (auto simp: finish_check_simps)
  have q1: "status (heap ?s3 t) = status (heap ?s0 t) \<or> status (heap ?s3 t) = 3" for t
    using spec[OF cascade_partD(1)[OF part], of t] by blast
  have nr: "status (heap ?s3 r) \<noteq> -1"
    using q1[of r] by (auto simp: fail_state_simps split: if_splits)
  have mono: "status (heap ?s3 t) = -1 \<longrightarrow> status (heap s t) = -1" for t
    using q1[of t] by (auto simp: fail_state_simps split: if_splits)
  have "pending_count s' < pending_count s"
    unfolding pending_count_def same_registry_values[OF reg]
    using rV r nr mono
    by (intro length_filter_less_flip[where x = r]) (auto simp: hs running_def)
  with inv' reg r Raises show ?thesis by (simp add: s'_def)
qed

lemma fire_inv:
  assumes "run_inv s" "fire depth s e = Some s'"
  shows "run_inv s' \<and> same_registry s s'"
proof (cases e)
  case (Finish r out)
  with assms(2) have r: "running s r" by (simp split: if_splits)
  from finish_progress[OF assms(1) r, of depth out] assms(2) Finish show ?thesis by auto
next
  case SetAbort
  with assms(2) have s': "s' = s\<lparr>abort := True\<rparr>" by simp
  have "well_formed (s\<lparr>abort := True\<rparr>)"
    using run_invD(1)[OF assms(1)]
    by (simp add: well_formed_def acyclic_deps_def allocated_def thread_values_def)
  moreover have "untouched_outside (s\<lparr>abort := True\<rparr>)"
    using run_invD(2)[OF assms(1)]
    by (simp add: untouched_outside_def pend_def thread_values_def)
  moreover have "status_ok (s\<lparr>abort := True\<rparr>)"
    using run_invD(3)[OF assms(1)] by (simp add: status_ok_def)
  moreover have "deps_ok (s\<lparr>abort := True\<rparr>)"
    using run_invD(4)[OF assms(1)] by (simp add: deps_ok_def thread_values_def)
  moreover have "counted (s\<lparr>abort := True\<rparr>)"
    using run_invD(5)[OF assms(1)] by (simp add: counted_def thread_values_def)
  moreover have "done_ok (s\<lparr>abort := True\<rparr>)"
    using run_invD(6)[OF assms(1)] by (auto simp: done_ok_def)
  moreover have "exn_ok (s\<lparr>abort := True\<rparr>)"
    using run_invD(7)[OF assms(1)] by (simp add: exn_ok_def)
  ultimately have "run_inv (s\<lparr>abort := True\<rparr>)" by (simp add: run_inv_def)
  then show ?thesis by (simp add: s' same_registry_def)
qed

lemma exec_inv:
  "exec depth s evs = Some s' \<Longrightarrow> run_inv s \<Longrightarrow> run_inv s' \<and> same_registry s s'"
proof (induction evs arbitrary: s)
  case Nil
  then show ?case by (simp add: same_registry_refl)
next
  case (Cons e es)
  from Cons.prems(1) obtain s1 where 1: "fire depth s e = Some s1"
    and 2: "exec depth s1 es = Some s'"
    by (auto split: option.splits)
  from fire_inv[OF Cons.prems(2) 1] Cons.IH[OF 2] show ?case
    by (blast intro: same_registry_trans)
qed

lemma launched_run:
  assumes w: "well_formed c" and f: "fresh c"
    and run: "MultiThread_run c = Returned s0" and ex: "exec depth s0 evs = Some s"
  shows "run_inv s" and "same_registry c s"
proof -
  from launch_inv[OF w f] run have i0: "run_inv s0" and r0: "threads s0 = threads c"
    "num_threads s0 = num_threads c" "\<forall>r. depends (heap s0 r) = depends (heap c r)" by auto
  have n0: "next_ref s0 = next_ref c" "\<forall>r. name (heap s0 r) = name (heap c r)"
  proof -
    let ?roots = "filter (\<lambda>th. depends (heap c th) = None) (thread_values c)"
    have "start_all (c\<lparr>done_threads := 0\<rparr>) ?roots =
      Returned (c\<lparr>done_threads := 0, heap := (\<lambda>t. if t \<in> set ?roots
         then (heap (c\<lparr>done_threads := 0\<rparr>) t)\<lparr>started := True\<rparr> else heap (c\<lparr>done_threads := 0\<rparr>) t)\<rparr>)"
      using wf_distinct_values[OF w] f by (intro start_all_eq) (simp_all add: fresh_def)
    with run have "s0 = c\<lparr>done_threads := 0, heap := (\<lambda>t. if t \<in> set ?roots
         then (heap (c\<lparr>done_threads := 0\<rparr>) t)\<lparr>started := True\<rparr> else heap (c\<lparr>done_threads := 0\<rparr>) t)\<rparr>"
      by (simp add: MultiThread_run_def)
    then show "next_ref s0 = next_ref c" "\<forall>r. name (heap s0 r) = name (heap c r)" by simp_all
  qed
  from exec_inv[OF ex i0] show "run_inv s" by blast
  have "same_registry c s0" using r0 n0 by (simp add: same_registry_def)
  with exec_inv[OF ex i0] show "same_registry c s" by (blast intro: same_registry_trans)
qed

lemma session_registry:
  assumes "session depth ops evs = Some s"
  obtains c where "configure MultiThread_init ops = Some c" "well_formed c" "fresh c"
    "same_registry c s" "run_inv s"
proof -
  from assms obtain c s0 where c: "configure MultiThread_init ops = Some c"
    and r: "MultiThread_run c = Returned s0" and e: "exec depth s0 evs = Some s"
    by (auto simp: session_def split: option.splits result.splits)
  from configure_wf[OF c wf_init fresh_init] have w: "well_formed c" "fresh c" by blast+
  from launched_run[OF w r e] c w that show ?thesis by blast
qed

lemma session_inv:
  assumes "session depth ops evs = Some s"
  shows "run_inv s"
  using assms by (rule session_registry)

lemma session_SomeI:
  "\<not> Option.is_none (session depth ops evs) \<Longrightarrow>
   session depth ops evs = Some (the (session depth ops evs))"
  by (cases "session depth ops evs") simp_all

lemma exec_append:
  "exec depth s (es @ [e]) =
     (case exec depth s es of None \<Rightarrow> None | Some s' \<Rightarrow> fire depth s' e)"
  by (induction es arbitrary: s) (auto split: option.splits)

lemma session_append:
  "session depth ops evs = Some s \<Longrightarrow> fire depth s e = Some s' \<Longrightarrow>
   session depth ops (evs @ [e]) = Some s'"
  by (auto simp: session_def exec_append split: option.splits result.splits)

section \<open>Results read after the run\<close>

text \<open>
  C6. \<^verbatim>\<open>all_success()\<close> is true exactly when every registered task is in state
  Succeeded; it is false as soon as one registered task is Failed, Aborted or
  SkippedDueToDependencyFailure. This holds in every state, in particular after
  \<^verbatim>\<open>run()\<close> has returned.
\<close>

theorem all_success_iff_every_task_succeeded:
  "(all_success s \<longleftrightarrow> (\<forall>t\<in>set (thread_values s). task_state s t = Some Succeeded)) \<and>
   ((\<exists>t\<in>set (thread_values s). task_state s t = Some Failed \<or> task_state s t = Some Aborted \<or>
        task_state s t = Some SkippedDueToDependencyFailure) \<longrightarrow> \<not> all_success s)"
proof -
  have st: "task_state s t = Some Succeeded \<longleftrightarrow> status (heap s t) = 0" for t
    by (simp add: task_state_def state_of_def)
  have a: "all_success s \<longleftrightarrow> (\<forall>t\<in>set (thread_values s). task_state s t = Some Succeeded)"
    by (simp add: all_success_def list_all_iff st)
  have "\<not> all_success s"
    if "\<exists>t\<in>set (thread_values s). task_state s t = Some Failed \<or>
          task_state s t = Some Aborted \<or> task_state s t = Some SkippedDueToDependencyFailure"
  proof -
    from that obtain t where "t \<in> set (thread_values s)" "task_state s t \<noteq> Some Succeeded"
      by auto
    with a show ?thesis by blast
  qed
  with a show ?thesis by blast
qed

theorem all_success_iff_every_task_succeeded_witness:
  "run_returns disk_full_run \<and>
   (\<exists>t\<in>set (thread_values disk_full_run). task_state disk_full_run t = Some Failed) \<and>
   \<not> all_success disk_full_run"
proof -
  have r: "run_returns disk_full_run" by code_simp
  have f: "\<exists>t\<in>set (thread_values disk_full_run). task_state disk_full_run t = Some Failed"
    by code_simp
  with all_success_iff_every_task_succeeded[of disk_full_run] r show ?thesis by blast
qed

text \<open>
  C5. In every state of a run, a thread that has been started and has a declared
  dependency finds that dependency in state Succeeded: the step from Pending to Running
  never comes before the dependency succeeded.
\<close>

theorem started_only_after_dependency_succeeded:
  assumes "session depth ops evs = Some s"
    and "depends (heap s t) = Some p"
    and "started (heap s t)"
  shows "task_state s p = Some Succeeded"
proof -
  have i: "run_inv s" using assms(1) by (rule session_inv)
  have "t \<in> set (thread_values s)"
    using run_invD(2)[OF i] assms(3) by (auto simp: untouched_outside_def pend_def)
  with run_invD(4)[OF i] assms(2,3) have "status (heap s p) = 0"
    by (auto simp: deps_ok_def)
  then show ?thesis by (simp add: task_state_def state_of_def)
qed

theorem started_only_after_dependency_succeeded_witness:
  "depends (heap first_success_run 1) = Some 0 \<and> task_state first_success_run 1 = Some Running \<and>
   started (heap first_success_run 1) \<and> task_state first_success_run 0 = Some Succeeded"
proof -
  have s: "session stack_room three_tasks [Finish 0 Returns] = Some first_success_run"
    unfolding first_success_run_def by (rule session_SomeI) code_simp
  have d: "depends (heap first_success_run 1) = Some 0" by code_simp
  have st: "started (heap first_success_run 1)" by code_simp
  have r: "task_state first_success_run 1 = Some Running" by code_simp
  from started_only_after_dependency_succeeded[OF s d st] d st r show ?thesis by simp
qed

text \<open>
  C9. The counter \<^verbatim>\<open>done_threads\<close> is never negative and never exceeds the number of
  registered threads: not while threads are being registered, and not in any state of a
  run, a cascade of skipped threads included.
\<close>

theorem done_threads_within_bounds:
  "(configure MultiThread_init ops = Some c \<longrightarrow>
      0 \<le> done_threads c \<and> done_threads c \<le> int (length (threads c))) \<and>
   (session depth ops evs = Some s \<longrightarrow>
      0 \<le> done_threads s \<and> done_threads s \<le> int (length (threads s)))"
proof (intro conjI impI)
  assume "configure MultiThread_init ops = Some c"
  from configure_wf[OF this wf_init fresh_init] have "done_threads c = 0"
    by (simp add: fresh_def)
  then show "0 \<le> done_threads c" "done_threads c \<le> int (length (threads c))" by simp_all
next
  assume "session depth ops evs = Some s"
  then have "run_inv s" by (rule session_inv)
  then have c: "done_threads s =
      int (length (filter (\<lambda>r. status (heap s r) \<noteq> -1) (thread_values s)))"
    using run_invD(5) by (simp add: counted_def)
  show "0 \<le> done_threads s" by (simp add: c)
  have "length (filter (\<lambda>r. status (heap s r) \<noteq> -1) (thread_values s)) \<le> length (thread_values s)"
    by (rule length_filter_le)
  then show "done_threads s \<le> int (length (threads s))" by (simp add: c thread_values_def)
qed

theorem done_threads_within_bounds_witness:
  "\<not> Option.is_none (configure MultiThread_init diamond) \<and>
   \<not> Option.is_none (session stack_room diamond diamond_failed_events) \<and>
   done_threads (the (configure MultiThread_init diamond)) = 0 \<and>
   done_threads diamond_failed_run = 4 \<and> length (threads diamond_failed_run) = 4"
proof -
  have a: "\<not> Option.is_none (configure MultiThread_init diamond)" by code_simp
  then have c: "configure MultiThread_init diamond = Some (the (configure MultiThread_init diamond))"
    by (cases "configure MultiThread_init diamond") simp_all
  have b: "\<not> Option.is_none (session stack_room diamond diamond_failed_events)" by code_simp
  then have s: "session stack_room diamond diamond_failed_events = Some diamond_failed_run"
    unfolding diamond_failed_run_def by (rule session_SomeI)
  have v: "done_threads (the (configure MultiThread_init diamond)) = 0"
    "done_threads diamond_failed_run = 4" "length (threads diamond_failed_run) = 4"
    by code_simp+
  from done_threads_within_bounds[where ops = diamond
      and c = "the (configure MultiThread_init diamond)" and depth = stack_room
      and evs = diamond_failed_events and s = diamond_failed_run] c s a b v
  show ?thesis by simp
qed




text \<open>
  C1, as the code has it. \<^verbatim>\<open>thread_success\<close> never looks at the abort flag. Here task C
  has failed and set the flag; task A then returns, and its dependent B, which was
  Pending, is started: it is Running and not SkippedDueToDependencyFailure.
\<close>

theorem success_starts_dependent_despite_abort:
  "\<not> Option.is_none
       (session stack_room three_tasks [Finish 2 (Raises (Exception ''disk full'') [''Traceback''])]) \<and>
   abort abort_set_run \<and> running abort_set_run 0 \<and> dependents abort_set_run 0 = [1] \<and>
   task_state abort_set_run 1 = Some Pending \<and>
   \<not> Option.is_none (fire stack_room abort_set_run (Finish 0 Returns)) \<and>
   abort (the (fire stack_room abort_set_run (Finish 0 Returns))) \<and>
   task_state (the (fire stack_room abort_set_run (Finish 0 Returns))) 0 = Some Succeeded \<and>
   task_state (the (fire stack_room abort_set_run (Finish 0 Returns))) 1 = Some Running"
  by code_simp

text \<open>
  C1, amended. When the body of a running thread returns, \<^verbatim>\<open>DemoGridThread.run\<close> returns
  without an exception, and afterwards: the task is Succeeded; the counter has grown by
  one; every registered task whose dependency is this task was Pending and is now Running,
  whether the abort flag is set or not; no other thread object has changed, so nothing is
  marked as skipped; the abort flag, the dictionary and \<^verbatim>\<open>num_threads\<close> are unchanged; and
  the wait of \<^verbatim>\<open>run()\<close> is released exactly when the counter equals \<^verbatim>\<open>num_threads\<close>.
\<close>

theorem success_starts_every_dependent:
  assumes "session depth ops evs = Some s" and "running s r"
  shows "\<exists>s'. DemoGridThread_run depth s r Returns = Returned s' \<and>
           fire depth s (Finish r Returns) = Some s' \<and>
           task_state s' r = Some Succeeded \<and>
           done_threads s' = done_threads s + 1 \<and>
           abort s' = abort s \<and>
           (\<forall>t\<in>set (dependents s r).
              task_state s t = Some Pending \<and> task_state s' t = Some Running) \<and>
           (\<forall>t. t \<noteq> r \<and> t \<notin> set (dependents s r) \<longrightarrow> heap s' t = heap s t) \<and>
           threads s' = threads s \<and> num_threads s' = num_threads s \<and>
           (run_returns s' \<longleftrightarrow> done_threads s' = num_threads s')"
proof -
  have i: "run_inv s" using assms(1) by (rule session_inv)
  note r = assms(2)
  from run_returns_effect[OF i r] obtain s' where
    run: "DemoGridThread_run depth s r Returns = Returned s'" and p: "success_post s r s'" by blast
  have hp: "heap s' t =
         (if t = r then (heap s r)\<lparr>status := 0\<rparr>
          else if t \<in> set (dependents s r) then (heap s t)\<lparr>started := True\<rparr>
          else heap s t)" for t
    using p by (simp add: success_post_def)
  have nr: "r \<notin> set (dependents s r)" using i by (rule inv_not_self_dependent)
  have 1: "fire depth s (Finish r Returns) = Some s'" using r run by simp
  have 2: "task_state s' r = Some Succeeded"
    by (simp add: task_state_def state_of_def hp)
  have 3: "done_threads s' = done_threads s + 1" "abort s' = abort s"
    using p by (simp_all add: success_post_def)
  have 4: "\<forall>t\<in>set (dependents s r).
              task_state s t = Some Pending \<and> task_state s' t = Some Running"
  proof
    fix t assume t: "t \<in> set (dependents s r)"
    with nr have "t \<noteq> r" by blast
    with inv_running_children_pend[OF i r t] t
    show "task_state s t = Some Pending \<and> task_state s' t = Some Running"
      by (simp add: pend_def task_state_def state_of_def hp)
  qed
  have 5: "\<forall>t. t \<noteq> r \<and> t \<notin> set (dependents s r) \<longrightarrow> heap s' t = heap s t"
    by (simp add: hp)
  have 7: "all_done s' = (all_done s \<or> done_threads s + 1 = num_threads s)"
    "num_threads s' = num_threads s" "threads s' = threads s"
    using p by (simp_all add: success_post_def)
  with running_not_done(2)[OF i r] 3 have 6: "run_returns s' \<longleftrightarrow> done_threads s' = num_threads s'"
    by (simp add: run_returns_def)
  from run 1 2 3 4 5 6 7(2,3) show ?thesis by blast
qed

theorem success_starts_every_dependent_witness:
  "session stack_room three_tasks [Finish 2 (Raises (Exception ''disk full'') [''Traceback''])] =
     Some abort_set_run \<and>
   running abort_set_run 0 \<and> abort abort_set_run \<and> dependents abort_set_run 0 = [1] \<and>
   (\<exists>s'. fire stack_room abort_set_run (Finish 0 Returns) = Some s' \<and> task_state s' 0 = Some Succeeded \<and>
         done_threads s' = 2 \<and> abort s' \<and> task_state s' 1 = Some Running \<and>
         \<not> run_returns s')"
proof -
  have s: "session stack_room three_tasks [Finish 2 (Raises (Exception ''disk full'') [''Traceback''])] =
     Some abort_set_run"
    unfolding abort_set_run_def by (rule session_SomeI) code_simp
  have r: "running abort_set_run 0" by code_simp
  have a: "abort abort_set_run" "dependents abort_set_run 0 = [1]"
    "done_threads abort_set_run = 1" "num_threads abort_set_run = 3" by code_simp+
  from success_starts_every_dependent[OF s r] obtain s' where
    "fire stack_room abort_set_run (Finish 0 Returns) = Some s'" "task_state s' 0 = Some Succeeded"
    "done_threads s' = done_threads abort_set_run + 1" "abort s' = abort abort_set_run"
    "\<forall>t\<in>set (dependents abort_set_run 0). task_state s' t = Some Running"
    "num_threads s' = num_threads abort_set_run"
    "run_returns s' \<longleftrightarrow> done_threads s' = num_threads s'"
    by auto
  with s r a show ?thesis by auto
qed

lemma forestD:
  "forest s \<Longrightarrow> t \<in> set (thread_values s) \<Longrightarrow> depends (heap s t) = Some p \<Longrightarrow>
   p \<in> set (thread_values s)"
  by (auto simp: forest_def list_all_iff split: option.splits)

lemma length_filter_partition:
  "(\<And>x. x \<in> set xs \<Longrightarrow> Q x = (P x \<or> R x)) \<Longrightarrow> (\<And>x. x \<in> set xs \<Longrightarrow> \<not> (P x \<and> R x)) \<Longrightarrow>
   length (filter Q xs) = length (filter P xs) + length (filter R xs)"
  by (induction xs) auto

section \<open>What a failure report does at every depth\<close>

lemma below_running_pend:
  assumes i: "run_inv s" and f: "forest s"
  shows "depends_on s t b \<Longrightarrow> running s b \<Longrightarrow> t \<in> set (thread_values s) \<Longrightarrow> pend s t"
proof (induction rule: depends_on.induct)
  case (direct t b)
  then have "t \<in> set (dependents s b)" by (simp add: dependents_def)
  with i direct.prems(1) show ?case by (rule inv_running_children_pend)
next
  case (via t p b)
  from forestD[OF f via.prems(2) via.hyps(1)] have pV: "p \<in> set (thread_values s)" .
  from via.IH[OF via.prems(1) pV] have pp: "pend s p" .
  from run_invD(4)[OF i] via.prems(2) via.hyps(1)
  have d: "started (heap s t) \<longleftrightarrow> status (heap s p) = 0"
    "status (heap s t) = 3 \<longrightarrow> status (heap s p) \<in> {1, 2, 3}"
    by (auto simp: deps_ok_def)
  from run_invD(3)[OF i] have k: "status (heap s t) \<in> {-1, 0, 1, 2, 3}"
    "status (heap s t) \<in> {0, 1, 2} \<longrightarrow> started (heap s t)"
    by (simp_all add: status_ok_def)
  from pp d k show ?case by (auto simp: pend_def)
qed

text \<open>
  The report of a failed body in any state of a run, with any room on the stack. Whether
  the cascade returns or is cut short, the task is Aborted or Failed according to the
  class of its exception, the exception and the trace are stored, the abort flag is set
  unless the exception is the abort exception, and the counter has grown by one for the
  task plus one for every task the cascade has marked. When the call returns, every
  registered task of a forest that depends on the task, directly or through other tasks,
  was Pending and is SkippedDueToDependencyFailure, and the wait of \<^verbatim>\<open>run()\<close> is released
  exactly when the counter equals \<^verbatim>\<open>num_threads\<close>.
\<close>

lemma failure_outcome:
  assumes i: "run_inv s" and r: "running s r"
    and s': "s' = state_after (DemoGridThread_run depth s r (Raises e tr))"
  shows "fire depth s (Finish r (Raises e tr)) = Some s'"
    and "task_state s' r = Some (if e = ThreadAbortException then Aborted else Failed)"
    and "exception (heap s' r) = Some e" and "stack_trace (heap s' r) = Some tr"
    and "abort s' = (abort s \<or> e \<noteq> ThreadAbortException)"
    and "done_threads s' =
           done_threads s + 1 +
           int (length (filter (\<lambda>t. status (heap s t) = -1 \<and> status (heap s' t) = 3)
                  (thread_values s)))"
    and "DemoGridThread_run depth s r (Raises e tr) = Returned s'' \<Longrightarrow> forest s \<Longrightarrow>
         depends_on s t r \<Longrightarrow> t \<in> set (thread_values s) \<Longrightarrow>
         task_state s t = Some Pending \<and> task_state s' t = Some SkippedDueToDependencyFailure"
    and "DemoGridThread_run depth s r (Raises e tr) = Returned s'' \<Longrightarrow>
         run_returns s' \<longleftrightarrow> done_threads s' = num_threads s'"
proof -
  let ?s0 = "fail_state s r e tr"
  let ?R = "abort_dependents depth ?s0 r"
  define s3 where "s3 = state_after ?R"
  note E = run_raises_effect[OF i r, where e = e and tr = tr and depth = depth]
  have so: "status_only ?s0 s3" unfolding s3_def by (rule E(1))
  have part: "cascade_part ?s0 (dependents s r) s3" unfolding s3_def by (rule E(2))
  have run: "DemoGridThread_run depth s r (Raises e tr) =
           (case ?R of RuntimeError s3 \<Rightarrow> RuntimeError s3
            | Returned s3 \<Rightarrow> Returned (finish_check s3))"
    by (rule E(4))
  have s'c: "s' = s3 \<or> s' = finish_check s3"
    unfolding s' run s3_def by (cases ?R) simp_all
  have hs: "heap s' = heap s3" using s'c by (auto simp: finish_check_simps)
  have ds: "done_threads s' = done_threads s3" "abort s' = abort s3"
    using s'c by (auto simp: finish_check_simps)
  define b :: int where "b = (if e = ThreadAbortException then 2 else 1)"
  have b3: "b \<noteq> 3" "b \<noteq> -1" by (simp_all add: b_def)
  note I = raises_inv[OF i r so part]
  have rV: "r \<in> set (thread_values s)" using i r by (rule inv_running_registered)
  have dV: "distinct (thread_values s)" using run_invD(1)[OF i] by (rule wf_distinct_values)
  have fr: "status (heap s r) = -1" using r by (simp add: running_def)
  have V3: "thread_values s3 = thread_values s"
    using status_only_values[OF so] by (simp add: fail_state_simps)
  have q1: "status (heap s3 t) = status (heap ?s0 t) \<or>
            (status (heap ?s0 t) = -1 \<and> status (heap s3 t) = 3)" for t
    using spec[OF cascade_partD(1)[OF part], of t] by (auto simp: pend_def)
  have sr: "status (heap s3 r) = b"
    using q1[of r] by (auto simp: fail_state_simps b_def split: if_splits)
  have st: "status (heap s3 t) = status (heap s t) \<or>
            (status (heap s t) = -1 \<and> status (heap s3 t) = 3)" if "t \<noteq> r" for t
    using q1[of t] that by (simp add: fail_state_simps)
  have h3: "exception (heap s3 r) = Some e" "stack_trace (heap s3 r) = Some tr"
    using status_only_heap[OF so, of r] by (simp_all add: fail_state_simps)
  have ab: "abort s3 = (abort s \<or> e \<noteq> ThreadAbortException)"
    using so by (simp add: status_only_def fail_state_simps)
  show "fire depth s (Finish r (Raises e tr)) = Some s'" using r by (simp add: s')
  show "task_state s' r = Some (if e = ThreadAbortException then Aborted else Failed)"
    using sr by (simp add: task_state_def state_of_def hs b_def)
  show "exception (heap s' r) = Some e" "stack_trace (heap s' r) = Some tr"
    using h3 by (simp_all add: hs)
  show "abort s' = (abort s \<or> e \<noteq> ThreadAbortException)" using ab by (simp add: ds)
  show "done_threads s' =
           done_threads s + 1 +
           int (length (filter (\<lambda>t. status (heap s t) = -1 \<and> status (heap s' t) = 3)
                  (thread_values s)))"
  proof -
    let ?P = "\<lambda>t. status (heap s t) \<noteq> -1"
    let ?N = "\<lambda>t. status (heap s t) = -1 \<and> status (heap s3 t) = 3"
    let ?R = "\<lambda>t. t = r \<or> ?N t"
    let ?Q = "\<lambda>t. status (heap s3 t) \<noteq> -1"
    have a: "length (filter ?Q (thread_values s)) =
             length (filter ?P (thread_values s)) + length (filter ?R (thread_values s))"
    proof (rule length_filter_partition)
      fix t assume "t \<in> set (thread_values s)"
      show "?Q t = (?P t \<or> ?R t)"
      proof (cases "t = r")
        case True
        with sr b3 show ?thesis by simp
      next
        case False
        from st[OF False] False show ?thesis by auto
      qed
      show "\<not> (?P t \<and> ?R t)" using fr by auto
    qed
    have c: "length (filter ?R (thread_values s)) = Suc (length (filter ?N (thread_values s)))"
      using dV rV sr b3 by (intro length_filter_flip[where x = r]) auto
    from run_invD(5)[OF i] run_invD(5)[OF I(1)] a c show ?thesis
      by (simp add: counted_def V3 ds hs)
  qed
  show "task_state s t = Some Pending \<and> task_state s' t = Some SkippedDueToDependencyFailure"
    if ret: "DemoGridThread_run depth s r (Raises e tr) = Returned s''" and f: "forest s"
      and on: "depends_on s t r" and tV: "t \<in> set (thread_values s)"
  proof -
    from ret run obtain s3' where R: "?R = Returned s3'" by (cases ?R) simp_all
    then have "s3' = s3" by (simp add: s3_def)
    with E(3)[OF R] have full: "cascade_full ?s0 (dependents s r) s3" by simp
    have all: "depends_on s t b \<Longrightarrow> b = r \<Longrightarrow> t \<in> set (thread_values s) \<Longrightarrow>
         status (heap s3 t) = 3" for t b
    proof (induction rule: depends_on.induct)
      case (direct t b)
      then have "t \<in> set (dependents s r)" by (simp add: dependents_def)
      with cascade_fullD(1)[OF full] show ?case by blast
    next
      case (via t p b)
      from forestD[OF f via.prems(2) via.hyps(1)] have pV: "p \<in> set (thread_values s)" .
      from via.IH[OF via.prems(1) pV] have p3: "status (heap s3 p) = 3" .
      from below_running_pend[OF i f via.hyps(2)] r via.prems(1) pV have pp: "pend s p" by simp
      with r have "p \<noteq> r" by (auto simp: pend_def running_def)
      with pp have "status (heap ?s0 p) = -1" by (simp add: fail_state_simps pend_def)
      with p3 have ch: "status (heap s3 p) \<noteq> status (heap ?s0 p)" by simp
      from cascade_fullD(2)[OF full] via.prems(2) via.hyps(1) ch show ?case
        by (simp add: fail_state_simps)
    qed
    from below_running_pend[OF i f on r tV] have "task_state s t = Some Pending"
      by (simp add: pend_def task_state_def state_of_def)
    moreover from all[OF on refl tV] have "task_state s' t = Some SkippedDueToDependencyFailure"
      by (simp add: task_state_def state_of_def hs)
    ultimately show ?thesis by blast
  qed
  show "run_returns s' \<longleftrightarrow> done_threads s' = num_threads s'"
    if ret: "DemoGridThread_run depth s r (Raises e tr) = Returned s''"
  proof -
    from ret run obtain s3' where R: "?R = Returned s3'" by (cases ?R) simp_all
    then have "s3' = s3" by (simp add: s3_def)
    with R have "s' = finish_check s3" unfolding s' run by simp
    with I(3) show ?thesis by (simp add: run_returns_def finish_check_simps)
  qed
qed

text \<open>
  In every state of a run, with any room on the stack, a registered task is
  SkippedDueToDependencyFailure only for a reason: it has never been started, and the task
  it depends on is Failed, Aborted or itself SkippedDueToDependencyFailure.
\<close>

lemma skipped_only_below_unsuccessful:
  assumes "session depth ops evs = Some s" and "t \<in> set (thread_values s)"
    and "task_state s t = Some SkippedDueToDependencyFailure"
  shows "\<not> started (heap s t)"
    and "\<exists>p. depends (heap s t) = Some p \<and>
             (task_state s p = Some Failed \<or> task_state s p = Some Aborted \<or>
              task_state s p = Some SkippedDueToDependencyFailure)"
proof -
  have i: "run_inv s" using assms(1) by (rule session_inv)
  from assms(3) have 3: "status (heap s t) = 3"
    by (simp add: task_state_def state_of_def split: if_splits)
  with run_invD(3)[OF i] show ns: "\<not> started (heap s t)" by (simp add: status_ok_def)
  from run_invD(4)[OF i] assms(2) have d:
    "depends (heap s t) = None \<longrightarrow> started (heap s t)"
    "\<forall>p. depends (heap s t) = Some p \<longrightarrow>
         (status (heap s t) = 3 \<longrightarrow> status (heap s p) \<in> {1, 2, 3})"
    by (simp_all add: deps_ok_def)
  from d(1) ns obtain p where p: "depends (heap s t) = Some p" by auto
  with d(2) 3 have "status (heap s p) \<in> {1, 2, 3}" by blast
  then have "task_state s p = Some Failed \<or> task_state s p = Some Aborted \<or>
              task_state s p = Some SkippedDueToDependencyFailure"
    by (auto simp: task_state_def state_of_def)
  with p show "\<exists>p. depends (heap s t) = Some p \<and>
             (task_state s p = Some Failed \<or> task_state s p = Some Aborted \<or>
              task_state s p = Some SkippedDueToDependencyFailure)" by blast
qed

section \<open>A cascade deeper than the stack\<close>

lemma no_report_possible:
  assumes "run_inv s" and "list_all (\<lambda>t. \<not> running s t) (thread_values s)"
  shows "fire depth s (Finish r out) = None"
proof -
  have "\<not> running s r"
    using inv_running_registered[OF assms(1), of r] assms(2) by (auto simp: list_all_iff)
  then show ?thesis by simp
qed

text \<open>
  C3, at an input where the code departs from the claim. The tasks form the chain
  A, B on A, C on B, D on C, and the thread of A has room for two nested calls of
  \<^verbatim>\<open>abort_dependents\<close>: a small copy of a chain longer than the interpreter's recursion
  limit. A fails. The cascade marks B and C and is then cut off by \<^verbatim>\<open>RuntimeError\<close>.
  D depends on the failed task A through C and B, has not been started, and stays
  Pending; it is not counted; the counter stays below the number of registered tasks, the
  wait of \<^verbatim>\<open>run()\<close> is not released, and no thread is left that could report.
\<close>

theorem cut_cascade_leaves_dependent_pending:
  "session 2 chain [Finish 0 (Raises (Exception ''network error'') [''Traceback''])] =
     Some chain_cut_run \<and>
   forest chain_cut_run \<and> unique_names chain_cut_run \<and>
   task_state chain_cut_run 0 = Some Failed \<and>
   task_state chain_cut_run 1 = Some SkippedDueToDependencyFailure \<and>
   task_state chain_cut_run 2 = Some SkippedDueToDependencyFailure \<and>
   3 \<in> set (thread_values chain_cut_run) \<and> depends_on chain_cut_run 3 0 \<and>
   task_state chain_cut_run 3 = Some Pending \<and>
   done_threads chain_cut_run = 3 \<and> num_threads chain_cut_run = 4 \<and>
   \<not> run_returns chain_cut_run \<and>
   (\<forall>depth r out. fire depth chain_cut_run (Finish r out) = None)"
proof -
  have s: "session 2 chain [Finish 0 (Raises (Exception ''network error'') [''Traceback''])] =
     Some chain_cut_run"
    unfolding chain_cut_run_def by (rule session_SomeI) code_simp
  have i: "run_inv chain_cut_run" using s by (rule session_inv)
  have f: "forest chain_cut_run" by code_simp
  have u: "unique_names chain_cut_run" by code_simp
  have t: "task_state chain_cut_run 0 = Some Failed"
    "task_state chain_cut_run 1 = Some SkippedDueToDependencyFailure"
    "task_state chain_cut_run 2 = Some SkippedDueToDependencyFailure"
    "task_state chain_cut_run 3 = Some Pending"
    by code_simp+
  have v: "3 \<in> set (thread_values chain_cut_run)" by code_simp
  have d1: "depends (heap chain_cut_run 1) = Some 0" by code_simp
  have d2: "depends (heap chain_cut_run 2) = Some 1" by code_simp
  have d3: "depends (heap chain_cut_run 3) = Some 2" by code_simp
  have "depends_on chain_cut_run 1 0" using d1 by (rule depends_on.direct)
  with d2 have "depends_on chain_cut_run 2 0" by (rule depends_on.via)
  with d3 have on: "depends_on chain_cut_run 3 0" by (rule depends_on.via)
  have n: "done_threads chain_cut_run = 3" "num_threads chain_cut_run = 4" by code_simp+
  have r: "\<not> run_returns chain_cut_run" by code_simp
  have q: "list_all (\<lambda>t. \<not> running chain_cut_run t) (thread_values chain_cut_run)"
    by code_simp
  have "fire depth chain_cut_run (Finish r out) = None" for depth r out
    using i q by (rule no_report_possible)
  with s f u t v on n r show ?thesis by blast
qed

text \<open>
  C4, at an input where the code departs from the claim. On the same chain of four tasks
  run with room for two nested calls, the body of A raises. \<^verbatim>\<open>DemoGridThread.run\<close> then
  ends with the \<^verbatim>\<open>RuntimeError\<close> of the cascade: A is Failed with its exception and trace
  stored, the abort flag is set, and the counter has grown by one for A and one each for B
  and C; but D, which depends on C, is still Pending, and the test of the counter that
  would release \<^verbatim>\<open>run()\<close> is never reached. The same happens when the abort flag is set and
  the body of A leaves with \<^verbatim>\<open>ThreadAbortException\<close>: A is Aborted, and the cascade stops
  before D.
\<close>

theorem failure_cascade_cut_short:
  "session 2 chain [] = Some chain_launched \<and> running chain_launched 0 \<and>
   done_threads chain_launched = 0 \<and>
   (case DemoGridThread_run 2 chain_launched 0
           (Raises (Exception ''network error'') [''Traceback'']) of
      Returned s' \<Rightarrow> False
    | RuntimeError s' \<Rightarrow>
        task_state s' 0 = Some Failed \<and>
        exception (heap s' 0) = Some (Exception ''network error'') \<and>
        stack_trace (heap s' 0) = Some [''Traceback''] \<and> abort s' \<and>
        done_threads s' = 3 \<and>
        task_state s' 1 = Some SkippedDueToDependencyFailure \<and>
        task_state s' 2 = Some SkippedDueToDependencyFailure \<and>
        depends (heap s' 3) = Some 2 \<and> task_state s' 3 = Some Pending \<and>
        \<not> all_done s') \<and>
   session 2 chain [SetAbort] = Some chain_abort_set \<and> running chain_abort_set 0 \<and>
   check_continue chain_abort_set = Some ThreadAbortException \<and>
   (case DemoGridThread_run 2 chain_abort_set 0
           (Raises ThreadAbortException [''Traceback'']) of
      Returned s' \<Rightarrow> False
    | RuntimeError s' \<Rightarrow>
        task_state s' 0 = Some Aborted \<and> done_threads s' = 3 \<and>
        task_state s' 1 = Some SkippedDueToDependencyFailure \<and>
        task_state s' 2 = Some SkippedDueToDependencyFailure \<and>
        depends (heap s' 3) = Some 2 \<and> task_state s' 3 = Some Pending \<and>
        \<not> all_done s')"
proof -
  have a: "session 2 chain [] = Some chain_launched"
    unfolding chain_launched_def by (rule session_SomeI) code_simp
  have b: "session 2 chain [SetAbort] = Some chain_abort_set"
    unfolding chain_abort_set_def by (rule session_SomeI) code_simp
  have c: "running chain_launched 0" "done_threads chain_launched = 0"
    "running chain_abort_set 0" "check_continue chain_abort_set = Some ThreadAbortException"
    by code_simp+
  have d: "(case DemoGridThread_run 2 chain_launched 0
           (Raises (Exception ''network error'') [''Traceback'']) of
      Returned s' \<Rightarrow> False
    | RuntimeError s' \<Rightarrow>
        task_state s' 0 = Some Failed \<and>
        exception (heap s' 0) = Some (Exception ''network error'') \<and>
        stack_trace (heap s' 0) = Some [''Traceback''] \<and> abort s' \<and>
        done_threads s' = 3 \<and>
        task_state s' 1 = Some SkippedDueToDependencyFailure \<and>
        task_state s' 2 = Some SkippedDueToDependencyFailure \<and>
        depends (heap s' 3) = Some 2 \<and> task_state s' 3 = Some Pending \<and>
        \<not> all_done s')"
    by code_simp
  have e: "(case DemoGridThread_run 2 chain_abort_set 0
           (Raises ThreadAbortException [''Traceback'']) of
      Returned s' \<Rightarrow> False
    | RuntimeError s' \<Rightarrow>
        task_state s' 0 = Some Aborted \<and> done_threads s' = 3 \<and>
        task_state s' 1 = Some SkippedDueToDependencyFailure \<and>
        task_state s' 2 = Some SkippedDueToDependencyFailure \<and>
        depends (heap s' 3) = Some 2 \<and> task_state s' 3 = Some Pending \<and>
        \<not> all_done s')"
    by code_simp
  from a b c d e show ?thesis by blast
qed

section \<open>The wait of run()\<close>

lemma length_filter_full:
  "length (filter P xs) = length xs \<longleftrightarrow> (\<forall>x\<in>set xs. P x)"
proof
  assume a: "length (filter P xs) = length xs"
  show "\<forall>x\<in>set xs. P x"
  proof (rule ccontr)
    assume "\<not> (\<forall>x\<in>set xs. P x)"
    then obtain x where "x \<in> set xs" "\<not> P x" by blast
    then have "length (filter P xs) < length xs" by (rule length_filter_less)
    with a show False by simp
  qed
next
  assume "\<forall>x\<in>set xs. P x"
  then have "filter P xs = xs" by (simp add: filter_id_conv)
  then show "length (filter P xs) = length xs" by simp
qed

text \<open>
  What a released wait means, whatever the depth: the counter has reached \<^verbatim>\<open>num_threads\<close>,
  no registration replaced an entry, and every registered task is in a terminal state.
\<close>

lemma released_wait_all_terminal:
  assumes "session depth ops evs = Some s" and "run_returns s"
  shows "done_threads s = num_threads s" and "unique_names s"
    and "\<forall>t\<in>set (thread_values s).
           task_state s t = Some Succeeded \<or> task_state s t = Some Failed \<or>
           task_state s t = Some Aborted \<or> task_state s t = Some SkippedDueToDependencyFailure"
proof -
  have i: "run_inv s" using assms(1) by (rule session_inv)
  let ?n = "length (filter (\<lambda>r. status (heap s r) \<noteq> -1) (thread_values s))"
  have c: "done_threads s = int ?n" using run_invD(5)[OF i] by (simp add: counted_def)
  have le: "?n \<le> length (thread_values s)" by (rule length_filter_le)
  have w: "int (length (threads s)) \<le> num_threads s"
    using run_invD(1)[OF i] by (simp add: well_formed_def)
  from run_invD(6)[OF i] assms(2) show d: "done_threads s = num_threads s"
    by (simp add: done_ok_def run_returns_def)
  have lv: "length (thread_values s) = length (threads s)" by (simp add: thread_values_def)
  from c le w d lv have eq: "?n = length (thread_values s)"
    "num_threads s = int (length (threads s))"
    by linarith+
  from eq(2) show "unique_names s" by (simp add: unique_names_def)
  from eq(1) have settled: "\<forall>t\<in>set (thread_values s). status (heap s t) \<noteq> -1"
    by (simp add: length_filter_full)
  show "\<forall>t\<in>set (thread_values s).
           task_state s t = Some Succeeded \<or> task_state s t = Some Failed \<or>
           task_state s t = Some Aborted \<or> task_state s t = Some SkippedDueToDependencyFailure"
  proof
    fix t assume "t \<in> set (thread_values s)"
    with settled have "status (heap s t) \<noteq> -1" by blast
    moreover from run_invD(3)[OF i] have "status (heap s t) \<in> {-1, 0, 1, 2, 3}"
      by (simp add: status_ok_def)
    ultimately show "task_state s t = Some Succeeded \<or> task_state s t = Some Failed \<or>
           task_state s t = Some Aborted \<or> task_state s t = Some SkippedDueToDependencyFailure"
      by (auto simp: task_state_def state_of_def)
  qed
qed

text \<open>
  C2, at an input where the code departs from the claim. With no thread registered,
  \<^verbatim>\<open>run()\<close> starts nothing and waits. In every state that follows, the counter equals the
  number of registered tasks, which is zero, and yet the wait is not released; no thread
  can report, so nothing will ever release it.
\<close>

theorem run_without_threads_never_returns:
  assumes "session depth [] evs = Some s"
  shows "done_threads s = int (length (threads s)) \<and> num_threads s = int (length (threads s)) \<and>
         \<not> run_returns s \<and> (\<forall>r out. fire depth s (Finish r out) = None)"
proof -
  have i: "run_inv s" using assms by (rule session_inv)
  from assms obtain c where c: "configure MultiThread_init [] = Some c"
    and reg: "same_registry c s"
    by (rule session_registry)
  from c have "c = MultiThread_init" by simp
  with reg have t: "threads s = []" "num_threads s = 0"
    by (simp_all add: same_registry_def MultiThread_init_def)
  from run_invD(5)[OF i] t have d: "done_threads s = 0"
    by (simp add: counted_def thread_values_def)
  from run_invD(6)[OF i] d have "\<not> all_done s" by (simp add: done_ok_def)
  moreover have "\<not> running s r" for r
    using inv_running_registered[OF i, of r] t by (auto simp: thread_values_def)
  ultimately show ?thesis using d t by (simp add: run_returns_def)
qed

theorem run_without_threads_never_returns_witness:
  "session stack_room [] [SetAbort] = Some no_threads_run \<and> done_threads no_threads_run = 0 \<and>
   length (threads no_threads_run) = 0 \<and> \<not> run_returns no_threads_run"
proof -
  have s: "session stack_room [] [SetAbort] = Some no_threads_run"
    unfolding no_threads_run_def by (rule session_SomeI) code_simp
  have "length (threads no_threads_run) = 0" by code_simp
  with run_without_threads_never_returns[OF s] s show ?thesis by simp
qed

section \<open>Registration under a name already in use\<close>

lemma configure_append:
  "configure s (xs @ ys) =
     (case configure s xs of None \<Rightarrow> None | Some s' \<Rightarrow> configure s' ys)"
  by (induction xs arbitrary: s) (auto split: option.splits)

lemma configure_step_gap:
  "configure_step s x = Some s' \<Longrightarrow>
   num_threads s - int (length (threads s)) \<le> num_threads s' - int (length (threads s'))"
  by (cases "(s, x)" rule: configure_step.cases)
    (auto simp: DemoGridThread_init_def add_thread_def length_update split: if_splits)

lemma configure_gap:
  "configure s ops = Some c \<Longrightarrow>
   num_threads s - int (length (threads s)) \<le> num_threads c - int (length (threads c))"
proof (induction ops arbitrary: s)
  case Nil
  then show ?case by simp
next
  case (Cons x xs)
  then obtain s1 where 1: "configure_step s x = Some s1" and 2: "configure s1 xs = Some c"
    by (auto split: option.splits)
  from configure_step_gap[OF 1] Cons.IH[OF 2] show ?case by linarith
qed

lemma update_present:
  "k \<in> fst ` set al \<Longrightarrow> map fst (AList.update k v al) = map fst al"
  by (induction al) auto

text \<open>
  C10. \<^verbatim>\<open>add_thread\<close> of a thread whose name is a key of the dictionary already is
  accepted. The keys of the dictionary stay as they are, the name now leads to the new
  thread, and \<^verbatim>\<open>num_threads\<close> has grown by one, so that it exceeds the number of stored
  threads. Whatever is registered afterwards and whatever happens in the run, in every
  state \<^verbatim>\<open>num_threads\<close> exceeds the number of stored threads, the counter of finished
  threads is below \<^verbatim>\<open>num_threads\<close>, and the wait of \<^verbatim>\<open>run()\<close> is not released.
\<close>

theorem duplicate_name_blocks_run:
  assumes "configure MultiThread_init ops = Some c"
    and "r < next_ref c"
    and "name (heap c r) \<in> fst ` set (threads c)"
  shows "configure MultiThread_init (ops @ [AddThread r]) = Some (add_thread c r) \<and>
         map fst (threads (add_thread c r)) = map fst (threads c) \<and>
         map_of (threads (add_thread c r)) (name (heap c r)) = Some r \<and>
         num_threads (add_thread c r) = num_threads c + 1 \<and>
         int (length (threads (add_thread c r))) < num_threads (add_thread c r) \<and>
         (\<forall>depth ops' evs s. session depth (ops @ AddThread r # ops') evs = Some s \<longrightarrow>
            int (length (threads s)) < num_threads s \<and> done_threads s < num_threads s \<and>
            \<not> run_returns s)"
proof -
  let ?c' = "add_thread c r"
  from configure_wf[OF assms(1) wf_init fresh_init] have w: "well_formed c" by blast
  have 1: "configure MultiThread_init (ops @ [AddThread r]) = Some ?c'"
    using assms(1,2) by (simp add: configure_append)
  have 2: "map fst (threads ?c') = map fst (threads c)"
    using assms(3) by (simp add: add_thread_def update_present)
  have 3: "map_of (threads ?c') (name (heap c r)) = Some r"
    by (simp add: add_thread_def update_conv')
  have 4: "num_threads ?c' = num_threads c + 1" by (simp add: add_thread_def)
  have len: "length (threads ?c') = length (threads c)"
    using assms(3) by (simp add: add_thread_def length_update)
  have 5: "int (length (threads ?c')) < num_threads ?c'"
    using w by (simp add: len 4 well_formed_def)
  have 6: "int (length (threads s)) < num_threads s \<and> done_threads s < num_threads s \<and>
            \<not> run_returns s"
    if s: "session depth (ops @ AddThread r # ops') evs = Some s" for depth ops' evs s
  proof -
    from s obtain c2 where c2: "configure MultiThread_init (ops @ AddThread r # ops') = Some c2"
      and reg: "same_registry c2 s" and i: "run_inv s"
      by (rule session_registry)
    from c2 assms(1,2) have "configure ?c' ops' = Some c2"
      by (simp add: configure_append)
    from configure_gap[OF this] 5 have "int (length (threads c2)) < num_threads c2" by linarith
    with reg have g: "int (length (threads s)) < num_threads s"
      by (simp add: same_registry_def)
    have "length (filter (\<lambda>r. status (heap s r) \<noteq> -1) (thread_values s))
            \<le> length (thread_values s)"
      by (rule length_filter_le)
    with run_invD(5)[OF i] have "done_threads s \<le> int (length (threads s))"
      by (simp add: counted_def thread_values_def)
    with g have d: "done_threads s < num_threads s" by linarith
    with run_invD(6)[OF i] have "\<not> run_returns s"
      by (auto simp: done_ok_def run_returns_def)
    with g d show ?thesis by blast
  qed
  from 1 2 3 4 5 6 show ?thesis by blast
qed

theorem duplicate_name_blocks_run_witness:
  "configure MultiThread_init duplicate_prefix = Some duplicate_config \<and>
   (1::nat) < next_ref duplicate_config \<and>
   name (heap duplicate_config 1) \<in> fst ` set (threads duplicate_config) \<and>
   threads duplicate_config = [(''A'', 0)] \<and>
   session stack_room (duplicate_prefix @ AddThread 1 # []) [Finish 1 Returns] =
     Some duplicate_run \<and>
   threads duplicate_run = [(''A'', 1)] \<and> num_threads duplicate_run = 2 \<and>
   task_state duplicate_run 1 = Some Succeeded \<and> done_threads duplicate_run = 1 \<and>
   \<not> run_returns duplicate_run"
proof -
  have a: "\<not> Option.is_none (configure MultiThread_init duplicate_prefix)" by code_simp
  then have c: "configure MultiThread_init duplicate_prefix = Some duplicate_config"
    unfolding duplicate_config_def
    by (cases "configure MultiThread_init duplicate_prefix") simp_all
  have r: "(1::nat) < next_ref duplicate_config" by code_simp
  have n: "name (heap duplicate_config 1) \<in> fst ` set (threads duplicate_config)" by code_simp
  have s: "session stack_room (duplicate_prefix @ AddThread 1 # []) [Finish 1 Returns] =
     Some duplicate_run"
    unfolding duplicate_run_def by (rule session_SomeI) code_simp
  have v: "threads duplicate_config = [(''A'', 0)]" "threads duplicate_run = [(''A'', 1)]"
    "num_threads duplicate_run = 2" "task_state duplicate_run 1 = Some Succeeded"
    "done_threads duplicate_run = 1"
    by code_simp+
  from duplicate_name_blocks_run[OF c r n] s have "\<not> run_returns duplicate_run" by blast
  with c r n s v show ?thesis by blast
qed

section \<open>The failures reported after the run\<close>







end
